theory Spec2Isabelle
  imports Main
begin

section \<open>The PII scanners of piicatcher/scanner.py\<close>

text \<open>
  The module defines three scanners behind one abstract method \<open>scan(text)\<close>:
  \<open>RegexScanner\<close> (the CommonRegex library), \<open>NERScanner\<close> (a spaCy pipeline) and
  \<open>ColumnNameScanner\<close> (a table of regular expressions over column names, with an
  optional exclusion pattern).

  Conventions of the embedding:
  \<^item> a Python \<open>str\<close> is the list of its code points, each a natural number; the
    characters a pattern is written with are code points below U+0100, of type \<open>char\<close>;
  \<^item> a Python exception is a value \<open>Inl e\<close> of \<open>error + 'a\<close>; the scanners catch none,
    so an exception of a library call is the result of the scan;
  \<^item> the set \<open>types\<close> a scan builds is a HOL set; \<open>list(types)\<close> enumerates it in an
    order the source does not fix, so the model returns the set itself;
  \<^item> the two libraries are not part of the repository: the calls \<open>CommonRegex(text)\<close>
    and \<open>nlp(text)\<close> are parameters of the model, and each may return or raise;
  \<^item> \<open>logging.debug\<close> appends a record to a log, the only state a scan writes.
\<close>

type_synonym str = "nat list"

definition str_of :: "string \<Rightarrow> str" where
  "str_of w = map of_char w"

subsection \<open>PiiTypes\<close>

text \<open>
  Modelled from the spec: the enumeration \<open>PiiTypes\<close> of \<open>piicatcher/piitypes.py\<close> is
  imported by the module but is not among the sources. The spec describes it as a closed
  set of category tags; the members below are the ones \<open>scanner.py\<close> names.
\<close>

datatype PiiTypes =
    PHONE | EMAIL | CREDIT_CARD | ADDRESS | PERSON | LOCATION | BIRTH_DATE
  | GENDER | NATIONALITY | USER_NAME | PASSWORD | SSN

datatype error = KeyError | IndexError | ValueError

subsection \<open>Regular expressions: the fragment of Python's \<open>re\<close> the module uses\<close>

text \<open>
  A pattern string is represented by its syntax tree: a literal character below U+0100,
  \<open>.\<close>, \<open>^\<close>, \<open>$\<close>, the empty pattern, concatenation, \<open>|\<close> and \<open>*\<close>. Groups only
  bracket, so they leave no node. The rule table is written in this fragment; an
  exclusion pattern with other constructs (classes, inline flags) is outside it. No flag other than \<open>re.IGNORECASE\<close> is ever passed, hence \<open>.\<close> matches
  every character but the line feed, \<open>^\<close> matches at the start of the text only, and
  \<open>$\<close> matches at the end of the text and just before a line feed that ends the text.
\<close>

datatype rx = Chr char | Dot | Bol | Eol | Eps | Seq rx rx | Alt rx rx | Star rx

abbreviation LF :: nat where
  "LF \<equiv> 10"

text \<open>
  How \<open>re.IGNORECASE\<close> compares a character \<open>c\<close> of the pattern, below U+0100, with a
  character \<open>d\<close> of the text, any code point: the lower case of \<open>d\<close> is the lower case
  of \<open>c\<close> or one of the extra cases the \<open>re\<close> module attaches to it. Lower-casing
  (\<open>_sre.unicode_tolower\<close>) moves A..Z and U+00C0..U+00DE (but not the multiplication
  sign U+00D7) up by 32; beyond U+00FF, the code points whose lower case is below U+0100
  are U+0130 (i), U+0178, U+1E9E, U+212A (k) and U+212B, and U+039C has the lower case
  U+03BC of the micro sign's extra case. Every other code point beyond U+00FF is left as
  it is: its lower case is neither below U+0100 nor an extra case, so the comparison with
  a pattern character is the same. The extra cases (\<open>re._casefix\<close>) of a lower-case
  character below U+0100 are U+0131 for i, U+017F for s and U+03BC for the micro sign.
\<close>

definition unicode_tolower :: "nat \<Rightarrow> nat" where
  "unicode_tolower d =
     (if d < 256
      then (if (65 \<le> d \<and> d \<le> 90) \<or> (192 \<le> d \<and> d \<le> 222 \<and> d \<noteq> 215) then d + 32 else d)
      else if d = 0x130 then 0x69
      else if d = 0x178 then 0xFF
      else if d = 0x39C then 0x3BC
      else if d = 0x1E9E then 0xDF
      else if d = 0x212A then 0x6B
      else if d = 0x212B then 0xE5
      else d)"

definition extra_cases :: "nat \<Rightarrow> nat list" where
  "extra_cases lo =
     (if lo = 0x69 then [0x131] else if lo = 0x73 then [0x17F] else if lo = 0xB5 then [0x3BC]
      else [])"

definition chr_eq :: "bool \<Rightarrow> char \<Rightarrow> nat \<Rightarrow> bool" where
  "chr_eq ic c d =
     (if ic
      then (let lo = unicode_tolower (of_char c) in unicode_tolower d \<in> set (lo # extra_cases lo))
      else d = of_char c)"

text \<open>
  A position in the text is the pair of "nothing has been consumed yet" and the rest of
  the text. \<open>ends ic x q\<close> lists the positions at which a match of \<open>x\<close> that starts at
  \<open>q\<close> can end. An iteration of \<open>*\<close> that consumes nothing ends where it started, so
  only consuming iterations are followed.
\<close>

type_synonym pos = "bool \<times> str"

function ends :: "bool \<Rightarrow> rx \<Rightarrow> pos \<Rightarrow> pos list" where
  "ends ic (Chr c) (b, r) =
     (case r of [] \<Rightarrow> [] | d # r' \<Rightarrow> if chr_eq ic c d then [(False, r')] else [])"
| "ends ic Dot (b, r) =
     (case r of [] \<Rightarrow> [] | d # r' \<Rightarrow> if d \<noteq> LF then [(False, r')] else [])"
| "ends ic Bol (b, r) = (if b then [(b, r)] else [])"
| "ends ic Eol (b, r) = (if r = [] \<or> r = [LF] then [(b, r)] else [])"
| "ends ic Eps (b, r) = [(b, r)]"
| "ends ic (Seq x y) (b, r) = concat (map (ends ic y) (ends ic x (b, r)))"
| "ends ic (Alt x y) (b, r) = ends ic x (b, r) @ ends ic y (b, r)"
| "ends ic (Star x) (b, r) =
     (b, r) # concat (map (ends ic (Star x))
                          (filter (\<lambda>q. length (snd q) < length r) (ends ic x (b, r))))"
  by pat_completeness auto
termination
  by (relation "measures [\<lambda>(ic, x, q). size x, \<lambda>(ic, x, q). length (snd q)]") auto

text \<open>
  A compiled pattern: the tree and whether \<open>re.IGNORECASE\<close> was given.
  \<open>Pattern_match p text\<close> is \<open>p.match(text) is not None\<close>: some match starts at the
  beginning of the text; where it ends is free. \<open>Pattern_fullmatch\<close> is
  \<open>p.fullmatch(text) is not None\<close>, a match that ends at the end of the text; the module
  never calls it, it is the notion of a pattern matching the whole input.
\<close>

datatype flag = NOFLAG | IGNORECASE

datatype Pattern = Pattern rx flag

definition re_compile :: "rx \<Rightarrow> flag \<Rightarrow> Pattern" where
  "re_compile x f = Pattern x f"

fun Pattern_ends :: "Pattern \<Rightarrow> str \<Rightarrow> pos list" where
  "Pattern_ends (Pattern x f) text = ends (f = IGNORECASE) x (True, text)"

definition Pattern_match :: "Pattern \<Rightarrow> str \<Rightarrow> bool" where
  "Pattern_match p text = (Pattern_ends p text \<noteq> [])"

definition Pattern_fullmatch :: "Pattern \<Rightarrow> str \<Rightarrow> bool" where
  "Pattern_fullmatch p text = list_ex (\<lambda>q. snd q = []) (Pattern_ends p text)"

text \<open>Writing a pattern down: a run of literal characters, \<open>a|b|c\<close>, and \<open>abc\<close>.\<close>

definition lit :: "string \<Rightarrow> rx" where
  "lit w = foldr (\<lambda>c. Seq (Chr c)) w Eps"

fun alts :: "rx list \<Rightarrow> rx" where
  "alts [] = Eps"
| "alts [x] = x"
| "alts (x # y # ys) = Alt x (alts (y # ys))"

definition seqs :: "rx list \<Rightarrow> rx" where
  "seqs xs = foldr Seq xs Eps"

subsection \<open>RegexScanner\<close>

text \<open>
  The object \<open>CommonRegex(text)\<close>, reduced to the four attributes \<open>scan\<close> reads. An
  attribute holds the list of the matches found in the text, or the bound method that
  would compute it. \<open>if regex_result.phones:\<close> tests the truth value of what the
  attribute holds: a list is true when it is not empty, a method is always true.
\<close>

datatype attribute = Matches "str list" | Bound_method

fun truthy :: "attribute \<Rightarrow> bool" where
  "truthy (Matches ms) = (ms \<noteq> [])"
| "truthy Bound_method = True"

record CommonRegex =
  phones :: attribute
  emails :: attribute
  credit_cards :: attribute
  street_addresses :: attribute

definition RegexScanner_scan ::
  "(str \<Rightarrow> error + CommonRegex) \<Rightarrow> str \<Rightarrow> error + PiiTypes list" where
  "RegexScanner_scan CommonRegex_new text =
     (case CommonRegex_new text of
        Inl e \<Rightarrow> Inl e
      | Inr regex_result \<Rightarrow>
          (let types = [];
               types = (if truthy (phones regex_result) then types @ [PHONE] else types);
               types = (if truthy (emails regex_result) then types @ [EMAIL] else types);
               types = (if truthy (credit_cards regex_result)
                        then types @ [CREDIT_CARD] else types);
               types = (if truthy (street_addresses regex_result)
                        then types @ [ADDRESS] else types)
           in Inr types))"

text \<open>
  Modelled from the library: the constructor of \<open>commonregex.CommonRegex\<close>, which is not
  part of the repository. It binds every attribute to a method and replaces each by the
  list the method returns only under \<open>if text:\<close>, that is, when the text is not empty.
  \<open>findall\<close> stands for the library's patterns: the matches of a category in a text.
\<close>

definition CommonRegex_init :: "(PiiTypes \<Rightarrow> str \<Rightarrow> str list) \<Rightarrow> str \<Rightarrow> error + CommonRegex" where
  "CommonRegex_init findall text =
     Inr (if text \<noteq> []
          then \<lparr>phones = Matches (findall PHONE text), emails = Matches (findall EMAIL text),
                credit_cards = Matches (findall CREDIT_CARD text),
                street_addresses = Matches (findall ADDRESS text)\<rparr>
          else \<lparr>phones = Bound_method, emails = Bound_method, credit_cards = Bound_method,
                street_addresses = Bound_method\<rparr>)"

subsection \<open>NERScanner\<close>

text \<open>
  An entity of the document is reduced to its label, the only attribute \<open>scan\<close> reads
  (\<open>label_\<close> in spaCy; the field is named \<open>label\<close> here, a name cannot end in an
  underscore). The scanner holds the pipeline \<open>spacy.load\<close> returned; calling it on a
  text returns a document or raises.
\<close>

record Span =
  label :: string

record Doc =
  ents :: "Span list"

record NERScanner =
  nlp :: "str \<Rightarrow> error + Doc"

definition NERScanner_init :: "(string \<Rightarrow> error + (str \<Rightarrow> error + Doc)) \<Rightarrow> error + NERScanner" where
  "NERScanner_init spacy_load =
     (case spacy_load ''en_core_web_sm'' of
        Inl e \<Rightarrow> Inl e
      | Inr pipeline \<Rightarrow> Inr \<lparr>nlp = pipeline\<rparr>)"

definition NER_ent :: "Span \<Rightarrow> PiiTypes set \<Rightarrow> PiiTypes set" where
  "NER_ent ent types =
     (let types = (if label ent = ''PERSON'' then insert PERSON types else types);
          types = (if label ent = ''GPE'' then insert LOCATION types else types);
          types = (if label ent = ''DATE'' then insert BIRTH_DATE types else types)
      in types)"

definition NERScanner_scan :: "NERScanner \<Rightarrow> str \<Rightarrow> error + PiiTypes set" where
  "NERScanner_scan self text =
     (case nlp self text of
        Inl e \<Rightarrow> Inl e
      | Inr doc \<Rightarrow>
          (let types = {}
           in Inr (fold NER_ent (ents doc) types)))"

text \<open>
  Modelled from the library: a spaCy pipeline, which is not part of the repository,
  refuses a text longer than its \<open>max_length\<close>, 1000000 characters unless reconfigured,
  with a \<open>ValueError\<close>, before any component runs. \<open>recognise\<close> stands for the components.
  \<open>blank\<close> is a pipeline whose components find no entity.
\<close>

definition spacy_pipeline :: "(str \<Rightarrow> Doc) \<Rightarrow> str \<Rightarrow> error + Doc" where
  "spacy_pipeline recognise text =
     (if length text > 1000000 then Inl ValueError else Inr (recognise text))"

definition blank :: "str \<Rightarrow> Doc" where
  "blank text = \<lparr>ents = []\<rparr>"

subsection \<open>ColumnNameScanner\<close>

text \<open>
  The class attribute \<open>regex\<close> is a dictionary; its items are kept in the order the
  source writes them. \<open>self.regex\<close> reads it through the instance, so it is a field of
  the scanner next to \<open>_exclude_regex\<close>.
\<close>

definition ColumnNameScanner_regex :: "(PiiTypes \<times> Pattern) list" where
  "ColumnNameScanner_regex =
   [(PERSON, re_compile
       (seqs [Bol, Star Dot,
              alts (map lit [''firstname'', ''fname'', ''lastname'', ''lname'',
                             ''fullname'', ''maidenname'', ''_name'',
                             ''nickname'', ''name_suffix'', ''name'']),
              Star Dot, Eol])
       IGNORECASE),
    (EMAIL, re_compile
       (seqs [Bol, Star Dot, alts (map lit [''email'', ''e-mail'', ''mail'']), Star Dot, Eol])
       IGNORECASE),
    (BIRTH_DATE, re_compile
       (seqs [Bol, Star Dot,
              alts (map lit [''date_of_birth'', ''dateofbirth'', ''dob'',
                             ''birthday'', ''date_of_death'', ''dateofdeath'']),
              Star Dot, Eol])
       IGNORECASE),
    (GENDER, re_compile
       (seqs [Bol, Star Dot, alts (map lit [''gender'']), Star Dot, Eol]) IGNORECASE),
    (NATIONALITY, re_compile
       (seqs [Bol, Star Dot, alts (map lit [''nationality'']), Star Dot, Eol]) IGNORECASE),
    (ADDRESS, re_compile
       (seqs [Bol, Star Dot,
              alts (map lit [''addr'', ''state'', ''county'', ''country'',
                             ''zipcode'', ''postal'', ''zone'', ''borough'', ''line1'',
                             ''line_'', ''line2'', ''pincode'', ''landmark'', ''contact'']),
              Star Dot, Eol])
       IGNORECASE),
    (USER_NAME, re_compile
       (seqs [Bol, Star Dot, lit ''user'', alts [lit ''id'', lit ''name'', Eps],
              Star Dot, Eol])
       IGNORECASE),
    (PASSWORD, re_compile
       (seqs [Bol, Star Dot, alts (map lit [''pass'', ''access_token'']), Star Dot, Eol])
       IGNORECASE),
    (SSN, re_compile
       (seqs [Bol, Star Dot,
              alts (map lit [''ssn'', ''social'', ''aadhar'', ''adhaar'', ''aadhaar'', ''pan'']),
              Star Dot, Eol])
       IGNORECASE),
    (PHONE, re_compile
       (seqs [Bol, Star Dot, alts (map lit [''phone'', ''mobile'', ''mob_'']), Star Dot, Eol])
       IGNORECASE),
    (LOCATION, re_compile
       (seqs [Bol, Star Dot, alts (map lit [''location'', ''lat'', ''lon'']), Star Dot, Eol])
       IGNORECASE)]"

record ColumnNameScanner =
  exclude_regex :: "Pattern option"
  regex :: "(PiiTypes \<times> Pattern) list"

text \<open>
  \<open>__init__(exclude_regex=())\<close>: the argument is a sequence of patterns, and element 0
  is compiled when the sequence is not empty.
\<close>

definition ColumnNameScanner_init :: "rx list \<Rightarrow> error + ColumnNameScanner" where
  "ColumnNameScanner_init exclude =
     (if length exclude > 0
      then (case exclude of
              [] \<Rightarrow> Inl IndexError
            | x # _ \<Rightarrow> Inr \<lparr>exclude_regex = Some (re_compile x IGNORECASE),
                           regex = ColumnNameScanner_regex\<rparr>)
      else Inr \<lparr>exclude_regex = None, regex = ColumnNameScanner_regex\<rparr>)"

text \<open>
  One loop \<open>for pii_type in self.regex\<close>: the keys in the dictionary's order, each
  looked up again as \<open>self.regex[pii_type]\<close>, which raises \<open>KeyError\<close> on a missing key.
  \<open>keep\<close> is the test of the loop body on the pattern found.
\<close>

fun for_pii_type ::
  "(PiiTypes \<times> Pattern) list \<Rightarrow> (Pattern \<Rightarrow> bool) \<Rightarrow> PiiTypes list \<Rightarrow> PiiTypes set
     \<Rightarrow> error + PiiTypes set" where
  "for_pii_type d keep [] types = Inr types"
| "for_pii_type d keep (pii_type # keys) types =
     (case map_of d pii_type of
        None \<Rightarrow> Inl KeyError
      | Some p \<Rightarrow> for_pii_type d keep keys (if keep p then insert pii_type types else types))"

definition ColumnNameScanner_scan :: "ColumnNameScanner \<Rightarrow> str \<Rightarrow> error + PiiTypes set" where
  "ColumnNameScanner_scan self text =
     (let types = {}
      in case exclude_regex self of
           Some ex \<Rightarrow>
             for_pii_type (regex self)
               (\<lambda>p. Pattern_match p text \<and> \<not> Pattern_match ex text)
               (map fst (regex self)) types
         | None \<Rightarrow>
             for_pii_type (regex self) (\<lambda>p. Pattern_match p text)
               (map fst (regex self)) types)"

text \<open>\<open>ColumnNameScanner(exclude).scan(text)\<close>: construction, then one scan.\<close>

definition ColumnNameScanner_new_scan :: "rx list \<Rightarrow> str \<Rightarrow> error + PiiTypes set" where
  "ColumnNameScanner_new_scan exclude text =
     (case ColumnNameScanner_init exclude of
        Inl e \<Rightarrow> Inl e
      | Inr self \<Rightarrow> ColumnNameScanner_scan self text)"

subsection \<open>Calls of \<open>scan\<close> as steps on a state\<close>

text \<open>
  The records \<open>logging.debug\<close> writes: \<open>Processing '%s'\<close>, \<open>Found %s\<close> and
  \<open>PiiTypes are %s\<close>. \<open>RegexScanner.scan\<close> logs nothing; \<open>NERScanner.scan\<close> logs the
  text before it calls the pipeline; \<open>ColumnNameScanner.scan\<close> logs once, after its loop.
\<close>

datatype log_record = Processing str | Found string | PiiTypes_are "PiiTypes set"

text \<open>
  A scanner object is one of the three subclasses of \<open>Scanner\<close>. A call of its method
  \<open>scan\<close> takes the object and the log and returns the result with the object and the
  log as the call leaves them. No method assigns to \<open>self\<close> or to the class attribute.
\<close>

datatype Scanner =
    A_RegexScanner
  | A_NERScanner NERScanner
  | A_ColumnNameScanner ColumnNameScanner

fun Scanner_scan ::
  "(str \<Rightarrow> error + CommonRegex) \<Rightarrow> Scanner \<Rightarrow> str \<Rightarrow> log_record list
     \<Rightarrow> (error + PiiTypes set) \<times> Scanner \<times> log_record list" where
  "Scanner_scan CommonRegex_new A_RegexScanner text lg =
     (case RegexScanner_scan CommonRegex_new text of
        Inl e \<Rightarrow> (Inl e, A_RegexScanner, lg)
      | Inr types \<Rightarrow> (Inr (set types), A_RegexScanner, lg))"
| "Scanner_scan CommonRegex_new (A_NERScanner self) text lg =
     (case nlp self text of
        Inl e \<Rightarrow> (Inl e, A_NERScanner self, lg @ [Processing text])
      | Inr doc \<Rightarrow>
          (NERScanner_scan self text, A_NERScanner self,
           lg @ Processing text # map (\<lambda>ent. Found (label ent)) (ents doc)
              @ [PiiTypes_are (fold NER_ent (ents doc) {})]))"
| "Scanner_scan CommonRegex_new (A_ColumnNameScanner self) text lg =
     (case ColumnNameScanner_scan self text of
        Inl e \<Rightarrow> (Inl e, A_ColumnNameScanner self, lg)
      | Inr types \<Rightarrow> (Inr types, A_ColumnNameScanner self, lg @ [PiiTypes_are types]))"

subsection \<open>The substring reading of the rule table\<close>

text \<open>
  The tokens of each rule, read off its pattern \<open>^.*(token1|token2|...).*$\<close>; the rule
  of \<open>USER_NAME\<close> is \<open>^.*user(id|name|).*$\<close>, whose three expansions are listed.
  \<open>contains_by eq text w\<close>: the token \<open>w\<close> occurs somewhere in \<open>text\<close>, its characters
  compared with those of the text by \<open>eq\<close>. \<open>contains_ci\<close> is the case-insensitive
  substring test, \<open>w.lower() in text.lower()\<close>; \<open>str_lower\<close> is \<open>str.lower()\<close>, which
  lower-cases character by character, U+0130 becoming the two characters U+0069 U+0307
  (a character whose lower case lies beyond U+00FF is left as it is, and stays different
  from every character of a token). \<open>contains_re\<close> compares as \<open>re.IGNORECASE\<close> does.
  \<open>chomp\<close> drops one line feed at the very end of a text.
\<close>

fun rule_tokens :: "PiiTypes \<Rightarrow> string list" where
  "rule_tokens PERSON = [''firstname'', ''fname'', ''lastname'', ''lname'', ''fullname'',
                         ''maidenname'', ''_name'', ''nickname'', ''name_suffix'', ''name'']"
| "rule_tokens EMAIL = [''email'', ''e-mail'', ''mail'']"
| "rule_tokens BIRTH_DATE = [''date_of_birth'', ''dateofbirth'', ''dob'', ''birthday'',
                             ''date_of_death'', ''dateofdeath'']"
| "rule_tokens GENDER = [''gender'']"
| "rule_tokens NATIONALITY = [''nationality'']"
| "rule_tokens ADDRESS = [''addr'', ''state'', ''county'', ''country'', ''zipcode'',
                          ''postal'', ''zone'', ''borough'', ''line1'', ''line_'', ''line2'',
                          ''pincode'', ''landmark'', ''contact'']"
| "rule_tokens USER_NAME = [''userid'', ''username'', ''user'']"
| "rule_tokens PASSWORD = [''pass'', ''access_token'']"
| "rule_tokens SSN = [''ssn'', ''social'', ''aadhar'', ''adhaar'', ''aadhaar'', ''pan'']"
| "rule_tokens PHONE = [''phone'', ''mobile'', ''mob_'']"
| "rule_tokens LOCATION = [''location'', ''lat'', ''lon'']"
| "rule_tokens CREDIT_CARD = []"

fun starts_by :: "(char \<Rightarrow> nat \<Rightarrow> bool) \<Rightarrow> str \<Rightarrow> string \<Rightarrow> bool" where
  "starts_by eq text [] = True"
| "starts_by eq [] (c # w) = False"
| "starts_by eq (d # text) (c # w) = (eq c d \<and> starts_by eq text w)"

fun contains_by :: "(char \<Rightarrow> nat \<Rightarrow> bool) \<Rightarrow> str \<Rightarrow> string \<Rightarrow> bool" where
  "contains_by eq [] w = (w = [])"
| "contains_by eq (d # text) w = (starts_by eq (d # text) w \<or> contains_by eq text w)"

definition str_lower :: "str \<Rightarrow> str" where
  "str_lower text =
     concat (map (\<lambda>d. if d = 0x130 then [0x69, 0x307] else [unicode_tolower d]) text)"

definition contains_ci :: "str \<Rightarrow> string \<Rightarrow> bool" where
  "contains_ci text w =
     contains_by (\<lambda>c d. d = unicode_tolower (of_char c)) (str_lower text) w"

definition contains_re :: "str \<Rightarrow> string \<Rightarrow> bool" where
  "contains_re text w = contains_by (chr_eq True) text w"

definition substring_rule :: "PiiTypes \<Rightarrow> str \<Rightarrow> bool" where
  "substring_rule pii_type text = list_ex (contains_ci text) (rule_tokens pii_type)"

definition substring_rule_re :: "PiiTypes \<Rightarrow> str \<Rightarrow> bool" where
  "substring_rule_re pii_type text = list_ex (contains_re text) (rule_tokens pii_type)"

definition chomp :: "str \<Rightarrow> str" where
  "chomp text = (if text \<noteq> [] \<and> last text = LF then butlast text else text)"

subsection \<open>What the entity labels stand for, and letter case\<close>

definition entity_label_map :: "string \<Rightarrow> PiiTypes option" where
  "entity_label_map l =
     (if l = ''PERSON'' then Some PERSON
      else if l = ''GPE'' then Some LOCATION
      else if l = ''DATE'' then Some BIRTH_DATE
      else None)"

text \<open>
  Two texts that differ only in the case of letters below U+0100, and two positions
  whose rests of the text differ so.
\<close>

definition case_eq :: "nat \<Rightarrow> nat \<Rightarrow> bool" where
  "case_eq a b = (a = b \<or> (a < 256 \<and> b < 256 \<and> unicode_tolower a = unicode_tolower b))"

definition same_ci :: "str \<Rightarrow> str \<Rightarrow> bool" where
  "same_ci s t = list_all2 case_eq s t"

definition same_pos_ci :: "pos \<Rightarrow> pos \<Rightarrow> bool" where
  "same_pos_ci q1 q2 = (fst q1 = fst q2 \<and> same_ci (snd q1) (snd q2))"

section \<open>Properties\<close>

lemmas eval_defs =
  ColumnNameScanner_new_scan_def ColumnNameScanner_init_def ColumnNameScanner_scan_def
  ColumnNameScanner_regex_def re_compile_def Pattern_match_def Pattern_fullmatch_def
  ends.simps lit_def seqs_def str_of_def chr_eq_def unicode_tolower_def extra_cases_def Let_def
  substring_rule_def substring_rule_re_def contains_ci_def contains_re_def str_lower_def
  chomp_def same_ci_def case_eq_def

subsection \<open>The loop of \<open>ColumnNameScanner.scan\<close>\<close>

lemma map_of_key_found:
  "k \<in> fst ` set d \<Longrightarrow> \<exists>p. map_of d k = Some p"
  by (metis domD dom_map_of_conv_image_fst)

lemma map_of_found_key:
  "map_of d k = Some p \<Longrightarrow> k \<in> fst ` set d"
  by (metis domI dom_map_of_conv_image_fst)

lemma for_pii_type_Inr:
  "set keys \<subseteq> fst ` set d \<Longrightarrow>
   for_pii_type d keep keys types =
     Inr (types \<union> {k \<in> set keys. \<exists>p. map_of d k = Some p \<and> keep p})"
proof (induction keys arbitrary: types)
  case Nil
  then show ?case by simp
next
  case (Cons k keys)
  from Cons.prems have "k \<in> fst ` set d" by simp
  then obtain p where p: "map_of d k = Some p"
    using map_of_key_found by fastforce
  from Cons.prems have sub: "set keys \<subseteq> fst ` set d" by simp
  show ?case
    using Cons.IH [OF sub] p by auto
qed

lemma for_pii_type_dict:
  "for_pii_type d keep (map fst d) {} = Inr {k. \<exists>p. map_of d k = Some p \<and> keep p}"
proof -
  have "set (map fst d) \<subseteq> fst ` set d" by simp
  then have "for_pii_type d keep (map fst d) {} =
      Inr ({} \<union> {k \<in> set (map fst d). \<exists>p. map_of d k = Some p \<and> keep p})"
    by (rule for_pii_type_Inr)
  moreover have "{k \<in> set (map fst d). \<exists>p. map_of d k = Some p \<and> keep p} =
      {k. \<exists>p. map_of d k = Some p \<and> keep p}"
    using map_of_found_key [of d] by auto
  ultimately show ?thesis by simp
qed

lemma ColumnNameScanner_scan_eq:
  "ColumnNameScanner_scan self text =
     Inr (case exclude_regex self of
            None \<Rightarrow> {t. \<exists>p. map_of (regex self) t = Some p \<and> Pattern_match p text}
          | Some ex \<Rightarrow>
              if Pattern_match ex text then {}
              else {t. \<exists>p. map_of (regex self) t = Some p \<and> Pattern_match p text})"
  by (cases "exclude_regex self")
     (simp_all add: ColumnNameScanner_scan_def Let_def for_pii_type_dict)

lemma regex_all_IGNORECASE:
  "list_all (\<lambda>(t, p). case p of Pattern x f \<Rightarrow> f = IGNORECASE) ColumnNameScanner_regex"
  by (simp add: ColumnNameScanner_regex_def re_compile_def)

text \<open>
  C1. Inclusion rule of \<open>ColumnNameScanner.scan\<close>, for any scanner and any text. Without
  an exclusion pattern, a PiiTypes is in the result exactly when the pattern the table
  holds for it matches the text. With an exclusion pattern, it is in the result exactly
  when its pattern matches and the exclusion pattern does not; the exclusion test is the
  same for every category, so the result is empty once the exclusion pattern matches.
  Every pattern of the class's table is compiled with \<open>re.IGNORECASE\<close>.
\<close>

theorem ColumnNameScanner_scan_inclusion:
  "ColumnNameScanner_scan self text =
     Inr (case exclude_regex self of
            None \<Rightarrow> {t. \<exists>p. map_of (regex self) t = Some p \<and> Pattern_match p text}
          | Some ex \<Rightarrow>
              if Pattern_match ex text then {}
              else {t. \<exists>p. map_of (regex self) t = Some p \<and> Pattern_match p text})
   \<and> list_all (\<lambda>(t, p). case p of Pattern x f \<Rightarrow> f = IGNORECASE) ColumnNameScanner_regex"
  using ColumnNameScanner_scan_eq regex_all_IGNORECASE by simp

theorem ColumnNameScanner_scan_inclusion_witness:
  "ColumnNameScanner_scan
     \<lparr>exclude_regex = Some (re_compile (seqs [Bol, lit ''user_'', Star Dot, Eol]) IGNORECASE),
      regex = ColumnNameScanner_regex\<rparr> (str_of ''user_email'') = Inr {}"
proof -
  have "Pattern_match (re_compile (seqs [Bol, lit ''user_'', Star Dot, Eol]) IGNORECASE)
          (str_of ''user_email'')"
    by (simp add: eval_defs)
  then show ?thesis
    using ColumnNameScanner_scan_inclusion
      [of "\<lparr>exclude_regex = Some (re_compile (seqs [Bol, lit ''user_'', Star Dot, Eol]) IGNORECASE),
            regex = ColumnNameScanner_regex\<rparr>" "str_of ''user_email''"]
    by simp
qed

subsection \<open>RegexScanner and NERScanner\<close>

text \<open>
  On a text that is not empty, the list \<open>RegexScanner.scan\<close> returns holds exactly the
  categories for which the library found a match, each once and in the order PHONE, EMAIL,
  CREDIT_CARD, ADDRESS.
\<close>

lemma RegexScanner_scan_nonempty_text:
  "text \<noteq> [] \<Longrightarrow>
   RegexScanner_scan (CommonRegex_init findall) text =
     Inr (filter (\<lambda>t. findall t text \<noteq> []) [PHONE, EMAIL, CREDIT_CARD, ADDRESS])"
  by (simp add: RegexScanner_scan_def CommonRegex_init_def Let_def)

text \<open>
  C2. On the empty text the code departs from the set of the categories that matched:
  \<open>CommonRegex('')\<close> leaves its attributes bound to methods, every one of them true, and
  \<open>RegexScanner.scan\<close> returns all four categories though nothing matched.
\<close>

theorem RegexScanner_scan_empty_text:
  "RegexScanner_scan (CommonRegex_init findall) [] = Inr [PHONE, EMAIL, CREDIT_CARD, ADDRESS]"
  by (simp add: RegexScanner_scan_def CommonRegex_init_def Let_def)

lemma fold_NER_ent:
  "fold NER_ent es types = types \<union> {t. \<exists>ent \<in> set es. entity_label_map (label ent) = Some t}"
proof (induction es arbitrary: types)
  case Nil
  then show ?case by simp
next
  case (Cons e es)
  have "NER_ent e types = types \<union> {t. entity_label_map (label e) = Some t}"
    by (auto simp: NER_ent_def Let_def entity_label_map_def)
  then show ?case
    using Cons.IH [of "NER_ent e types"] by auto
qed

text \<open>
  C3. For any text on which the pipeline returns, \<open>NERScanner.scan\<close> returns exactly the
  set of the PiiTypes that the labels of the recognized entities stand for: PERSON for
  the label PERSON, LOCATION for GPE and BIRTH_DATE for DATE (any date), nothing for any
  other label; a label that occurs several times gives its tag once, the result being a
  set. (When the pipeline raises, so does the scan.)
\<close>

theorem NERScanner_scan_labels:
  "NERScanner_scan self text =
     (case nlp self text of
        Inl e \<Rightarrow> Inl e
      | Inr doc \<Rightarrow> Inr {t. \<exists>ent \<in> set (ents doc). entity_label_map (label ent) = Some t})
   \<and> entity_label_map ''PERSON'' = Some PERSON
   \<and> entity_label_map ''GPE'' = Some LOCATION
   \<and> entity_label_map ''DATE'' = Some BIRTH_DATE
   \<and> (l \<notin> {''PERSON'', ''GPE'', ''DATE''} \<longrightarrow> entity_label_map l = None)"
  by (simp add: NERScanner_scan_def Let_def fold_NER_ent entity_label_map_def
      split: sum.splits)

theorem NERScanner_scan_labels_witness:
  "NERScanner_scan
     \<lparr>nlp = \<lambda>text. Inr \<lparr>ents = [\<lparr>label = ''DATE''\<rparr>, \<lparr>label = ''ORG''\<rparr>, \<lparr>label = ''PERSON''\<rparr>,
                                 \<lparr>label = ''DATE''\<rparr>]\<rparr>\<rparr>
     (str_of ''Ada Lovelace, ACM, 1815 and 1852'') = Inr {PERSON, BIRTH_DATE}
   \<and> entity_label_map ''ORG'' = None"
proof -
  let ?doc = "\<lparr>ents = [\<lparr>label = ''DATE''\<rparr>, \<lparr>label = ''ORG''\<rparr>, \<lparr>label = ''PERSON''\<rparr>,
                       \<lparr>label = ''DATE''\<rparr>]\<rparr>"
  let ?self = "\<lparr>nlp = \<lambda>text::str. (Inr ?doc :: error + Doc)\<rparr>"
  let ?text = "str_of ''Ada Lovelace, ACM, 1815 and 1852''"
  have org: "''ORG'' \<notin> {''PERSON'', ''GPE'', ''DATE''}" by simp
  have *: "NERScanner_scan ?self ?text =
      (case nlp ?self ?text of
         Inl e \<Rightarrow> Inl e
       | Inr doc \<Rightarrow> Inr {t. \<exists>ent \<in> set (ents doc). entity_label_map (label ent) = Some t})"
    and **: "entity_label_map ''ORG'' = None"
    using NERScanner_scan_labels [of ?self ?text "''ORG''"] org
    by blast+
  have "{t. \<exists>ent \<in> set (ents ?doc). entity_label_map (label ent) = Some t} =
      {PERSON, BIRTH_DATE}"
    by (auto simp: entity_label_map_def)
  with * ** show ?thesis by simp
qed

subsection \<open>Construction of a ColumnNameScanner\<close>

text \<open>
  C8. The column name \<open>fname\<close>, scanned by a ColumnNameScanner built without exclusion
  pattern, gives exactly the set of PERSON: of the eleven rules of the table, the rule of
  PERSON matches and the ten others do not.
\<close>

theorem ColumnNameScanner_fname:
  "ColumnNameScanner_new_scan [] (str_of ''fname'') = Inr {PERSON}
   \<and> map (\<lambda>(t, p). (t, Pattern_match p (str_of ''fname''))) ColumnNameScanner_regex =
       [(PERSON, True), (EMAIL, False), (BIRTH_DATE, False), (GENDER, False),
        (NATIONALITY, False), (ADDRESS, False), (USER_NAME, False), (PASSWORD, False),
        (SSN, False), (PHONE, False), (LOCATION, False)]"
  by (simp add: eval_defs)

text \<open>
  C10. The constructor takes a sequence of exclusion patterns. An empty sequence leaves
  the scanner without exclusion pattern. Of a sequence with one or more elements, the
  first is compiled, with \<open>re.IGNORECASE\<close>, and is the exclusion pattern; the others are
  never read, and no error comes of them: the scanner built from \<open>p1\<close> followed by more
  patterns is the scanner built from \<open>p1\<close> alone, and scans alike.
\<close>

theorem ColumnNameScanner_init_first_only:
  "ColumnNameScanner_init [] = Inr \<lparr>exclude_regex = None, regex = ColumnNameScanner_regex\<rparr>
   \<and> ColumnNameScanner_init (p1 # ps) =
       Inr \<lparr>exclude_regex = Some (re_compile p1 IGNORECASE), regex = ColumnNameScanner_regex\<rparr>
   \<and> ColumnNameScanner_init (p1 # ps) = ColumnNameScanner_init [p1]
   \<and> ColumnNameScanner_new_scan (p1 # ps) text = ColumnNameScanner_new_scan [p1] text"
  by (simp add: ColumnNameScanner_init_def ColumnNameScanner_new_scan_def)

theorem ColumnNameScanner_init_first_only_witness:
  "ColumnNameScanner_new_scan [lit ''user'', lit ''mail''] (str_of ''e-mail'') = Inr {EMAIL}
   \<and> ColumnNameScanner_new_scan [lit ''user''] (str_of ''e-mail'') = Inr {EMAIL}"
proof -
  have "ColumnNameScanner_new_scan [lit ''user''] (str_of ''e-mail'') = Inr {EMAIL}"
    by (simp add: eval_defs)
  then show ?thesis
    using ColumnNameScanner_init_first_only
      [of "lit ''user''" "[lit ''mail'']" "str_of ''e-mail''"]
    by simp
qed

subsection \<open>The matcher\<close>

lemma unicode_tolower_LF_iff: "unicode_tolower d = LF \<longleftrightarrow> d = LF"
  by (auto simp: unicode_tolower_def)

lemma chr_eq_LF: "chr_eq ic c d \<Longrightarrow> of_char c \<noteq> LF \<Longrightarrow> d \<noteq> LF"
proof
  assume eq: "chr_eq ic c d" and c: "of_char c \<noteq> LF" and d: "d = LF"
  show False
  proof (cases ic)
    case True
    with eq d have "LF \<in> set (unicode_tolower (of_char c) # extra_cases (unicode_tolower (of_char c)))"
      by (simp add: chr_eq_def Let_def unicode_tolower_LF_iff [THEN iffD2])
    then have "unicode_tolower (of_char c) = LF"
      by (auto simp: extra_cases_def split: if_splits)
    with c show False by (simp add: unicode_tolower_LF_iff)
  next
    case False
    with eq d c show False by (simp add: chr_eq_def)
  qed
qed

lemma set_ends_Seq:
  "set (ends ic (Seq x y) q) = (\<Union>q' \<in> set (ends ic x q). set (ends ic y q'))"
  by (cases q) simp

lemma set_ends_Alt:
  "set (ends ic (Alt x y) q) = set (ends ic x q) \<union> set (ends ic y q)"
  by (cases q) simp

lemma set_ends_alts:
  "xs \<noteq> [] \<Longrightarrow> set (ends ic (alts xs) q) = (\<Union>x \<in> set xs. set (ends ic x q))"
  by (induction xs rule: alts.induct) (simp_all add: set_ends_Alt)

declare ends.simps(8) [simp del]

lemma ends_Star_Dot_Nil: "ends ic (Star Dot) (b, []) = [(b, [])]"
  by (subst ends.simps(8)) simp

lemma ends_Star_Dot_Cons:
  "ends ic (Star Dot) (b, d # r) =
     (b, d # r) # (if d \<noteq> LF then ends ic (Star Dot) (False, r) else [])"
  by (subst ends.simps(8)) simp

lemma set_ends_Star_Dot:
  "set (ends ic (Star Dot) (b, r)) =
     {(b \<and> u = [], r') | u r'. r = u @ r' \<and> LF \<notin> set u}"
proof (induction r arbitrary: b)
  case Nil
  then show ?case by (auto simp: ends_Star_Dot_Nil)
next
  case (Cons d r)
  show ?case
  proof (cases "d = LF")
    case True
    have "set (ends ic (Star Dot) (b, d # r)) = {(b, d # r)}"
      using True by (simp add: ends_Star_Dot_Cons)
    also have "\<dots> = {(b \<and> u = [], r') | u r'. d # r = u @ r' \<and> LF \<notin> set u}"
      using True by (auto simp: Cons_eq_append_conv)
    finally show ?thesis .
  next
    case False
    have "set (ends ic (Star Dot) (b, d # r)) =
        insert (b, d # r) (set (ends ic (Star Dot) (False, r)))"
      using False by (simp add: ends_Star_Dot_Cons)
    also have "\<dots> = insert (b, d # r) {(False, r') | u r'. r = u @ r' \<and> LF \<notin> set u}"
      by (simp add: Cons.IH)
    also have "\<dots> = {(b \<and> u = [], r') | u r'. d # r = u @ r' \<and> LF \<notin> set u}"
      using False by (auto simp: Cons_eq_append_conv)
    finally show ?thesis .
  qed
qed

lemma set_ends_lit:
  "set (ends ic (lit w) (b, r)) =
     {(b \<and> w = [], r') | r'. \<exists>u. r = u @ r' \<and> list_all2 (chr_eq ic) w u}"
proof (induction w arbitrary: b r)
  case Nil
  then show ?case by (auto simp: lit_def)
next
  case (Cons c w)
  have lit_Cons: "lit (c # w) = Seq (Chr c) (lit w)" by (simp add: lit_def)
  show ?case
  proof (cases r)
    case Nil
    then show ?thesis by (auto simp: lit_Cons list_all2_Cons1)
  next
    case (Cons d r0)
    show ?thesis
    proof (cases "chr_eq ic c d")
      case True
      have "set (ends ic (lit (c # w)) (b, r)) = set (ends ic (lit w) (False, r0))"
        using True Cons by (simp add: lit_Cons)
      also have "\<dots> = {(False \<and> w = [], r') | r'. \<exists>u. r0 = u @ r' \<and> list_all2 (chr_eq ic) w u}"
        by (rule Cons.IH)
      also have "\<dots> = {(b \<and> c # w = [], r') | r'. \<exists>u. r = u @ r' \<and> list_all2 (chr_eq ic) (c # w) u}"
        using True Cons by (auto simp: list_all2_Cons1 Cons_eq_append_conv)
      finally show ?thesis .
    next
      case False
      then show ?thesis
        using Cons by (auto simp: lit_Cons list_all2_Cons1 Cons_eq_append_conv)
    qed
  qed
qed

lemma in_ends_seqs_Nil: "q \<in> set (ends ic (seqs []) q0) \<longleftrightarrow> q = q0"
  by (cases q0) (auto simp: seqs_def)

lemma in_ends_seqs_Cons:
  "q \<in> set (ends ic (seqs (x # xs)) q0) \<longleftrightarrow>
     (\<exists>q' \<in> set (ends ic x q0). q \<in> set (ends ic (seqs xs) q'))"
  by (simp add: seqs_def set_ends_Seq)

lemma in_ends_Bol: "q \<in> set (ends ic Bol q0) \<longleftrightarrow> q = q0 \<and> fst q0"
  by (cases q0) auto

lemma in_ends_Eol: "q \<in> set (ends ic Eol q0) \<longleftrightarrow> q = q0 \<and> (snd q0 = [] \<or> snd q0 = [LF])"
  by (cases q0) auto

lemma in_ends_Star_Dot:
  "q \<in> set (ends ic (Star Dot) q0) \<longleftrightarrow>
     (\<exists>u. snd q0 = u @ snd q \<and> LF \<notin> set u \<and> fst q = (fst q0 \<and> u = []))"
proof (cases q0)
  case (Pair b r)
  show ?thesis
    unfolding Pair set_ends_Star_Dot by (cases q) auto
qed

lemma in_ends_tokens:
  assumes "ws \<noteq> []" and "[] \<notin> set ws"
  shows "q \<in> set (ends ic (alts (map lit ws)) q0) \<longleftrightarrow>
     (\<exists>w \<in> set ws. \<exists>x. snd q0 = x @ snd q \<and> list_all2 (chr_eq ic) w x \<and> \<not> fst q)"
proof (cases q0)
  case (Pair b r)
  have "q \<in> set (ends ic (alts (map lit ws)) (b, r)) \<longleftrightarrow>
      (\<exists>w \<in> set ws. q \<in> set (ends ic (lit w) (b, r)))"
    using assms(1) by (simp add: set_ends_alts)
  also have "\<dots> \<longleftrightarrow> (\<exists>w \<in> set ws. \<exists>x. r = x @ snd q \<and> list_all2 (chr_eq ic) w x \<and> \<not> fst q)"
  proof (rule bex_cong [OF refl])
    fix w assume "w \<in> set ws"
    with assms(2) have "w \<noteq> []" by auto
    then show "q \<in> set (ends ic (lit w) (b, r)) \<longleftrightarrow>
        (\<exists>x. r = x @ snd q \<and> list_all2 (chr_eq ic) w x \<and> \<not> fst q)"
      unfolding set_ends_lit by (cases q) auto
  qed
  finally show ?thesis by (simp add: Pair)
qed

lemma rule_matches:
  assumes A: "\<And>q q0. q \<in> set (ends ic A q0) \<longleftrightarrow>
      (\<exists>w \<in> set ws. \<exists>x. snd q0 = x @ snd q \<and> list_all2 (chr_eq ic) w x \<and> \<not> fst q)"
  shows "ends ic (seqs [Bol, Star Dot, A, Star Dot, Eol]) (True, text) \<noteq> [] \<longleftrightarrow>
     (\<exists>w \<in> set ws. \<exists>u x v e. text = u @ x @ v @ e \<and> LF \<notin> set u \<and> LF \<notin> set v \<and>
        list_all2 (chr_eq ic) w x \<and> (e = [] \<or> e = [LF]))"
    (is "?L \<longleftrightarrow> ?R")
proof
  assume ?L
  then obtain q where "q \<in> set (ends ic (seqs [Bol, Star Dot, A, Star Dot, Eol]) (True, text))"
    by (cases "ends ic (seqs [Bol, Star Dot, A, Star Dot, Eol]) (True, text)") auto
  then obtain q1 q2 q3 q4 where
    q1: "q1 \<in> set (ends ic Bol (True, text))" and
    q2: "q2 \<in> set (ends ic (Star Dot) q1)" and
    q3: "q3 \<in> set (ends ic A q2)" and
    q4: "q4 \<in> set (ends ic (Star Dot) q3)" and
    q5: "q \<in> set (ends ic Eol q4)"
    unfolding in_ends_seqs_Cons in_ends_seqs_Nil by blast
  from q1 have q1': "q1 = (True, text)" by (simp add: in_ends_Bol)
  from q2 obtain u where u: "text = u @ snd q2" "LF \<notin> set u"
    unfolding in_ends_Star_Dot q1' by auto
  from q3 obtain w x where w: "w \<in> set ws" "snd q2 = x @ snd q3" "list_all2 (chr_eq ic) w x"
    unfolding A by blast
  from q4 obtain v where v: "snd q3 = v @ snd q4" "LF \<notin> set v"
    unfolding in_ends_Star_Dot by auto
  from q5 have e: "snd q4 = [] \<or> snd q4 = [LF]"
    unfolding in_ends_Eol by simp
  have "text = u @ x @ v @ snd q4"
    using u(1) w(2) v(1) by simp
  with u(2) v(2) w(1) w(3) e show ?R by blast
next
  assume ?R
  then obtain w u x v e where w: "w \<in> set ws" and
    t: "text = u @ x @ v @ e" and u: "LF \<notin> set u" and v: "LF \<notin> set v" and
    x: "list_all2 (chr_eq ic) w x" and e: "e = [] \<or> e = [LF]"
    by blast
  have q1: "(True, text) \<in> set (ends ic Bol (True, text))"
    by (simp add: in_ends_Bol)
  have q2: "(u = [], x @ v @ e) \<in> set (ends ic (Star Dot) (True, text))"
    unfolding in_ends_Star_Dot using t u by auto
  have q3: "(False, v @ e) \<in> set (ends ic A (u = [], x @ v @ e))"
    unfolding A using w x by auto
  have q4: "(False, e) \<in> set (ends ic (Star Dot) (False, v @ e))"
    unfolding in_ends_Star_Dot using v by auto
  have q5: "(False, e) \<in> set (ends ic Eol (False, e))"
    unfolding in_ends_Eol using e by simp
  have "(False, e) \<in> set (ends ic (seqs [Bol, Star Dot, A, Star Dot, Eol]) (True, text))"
    unfolding in_ends_seqs_Cons in_ends_seqs_Nil using q1 q2 q3 q4 q5 by blast
  then show ?L by auto
qed

lemma starts_by_iff:
  "starts_by eq s w \<longleftrightarrow> (\<exists>x v. s = x @ v \<and> list_all2 eq w x)"
proof (induction eq s w rule: starts_by.induct)
  case (1 eq s)
  then show ?case by simp
next
  case (2 eq c w)
  then show ?case by (simp add: list_all2_Cons1)
next
  case (3 eq d s c w)
  then show ?case
    by (auto simp: list_all2_Cons1 Cons_eq_append_conv)
qed

lemma contains_by_iff:
  "contains_by eq s w \<longleftrightarrow> (\<exists>u x v. s = u @ x @ v \<and> list_all2 eq w x)"
proof (induction s)
  case Nil
  then show ?case by auto
next
  case (Cons d s)
  show ?case (is "?L \<longleftrightarrow> ?R")
  proof
    assume ?L
    then consider "starts_by eq (d # s) w" | "contains_by eq s w" by auto
    then show ?R
    proof cases
      case 1
      then obtain x v where "d # s = x @ v" "list_all2 eq w x"
        unfolding starts_by_iff by blast
      then have "d # s = [] @ x @ v \<and> list_all2 eq w x" by simp
      then show ?thesis by blast
    next
      case 2
      then obtain u x v where "s = u @ x @ v" "list_all2 eq w x"
        unfolding Cons.IH by blast
      then have "d # s = (d # u) @ x @ v \<and> list_all2 eq w x" by simp
      then show ?thesis by blast
    qed
  next
    assume ?R
    then obtain u x v where t: "d # s = u @ x @ v" and x: "list_all2 eq w x"
      by blast
    show ?L
    proof (cases u)
      case Nil
      with t x have "starts_by eq (d # s) w"
        unfolding starts_by_iff by auto
      then show ?thesis by simp
    next
      case (Cons d' u')
      with t have "s = u' @ x @ v" by simp
      with x have "contains_by eq s w" unfolding Cons.IH by blast
      then show ?thesis by simp
    qed
  qed
qed

lemma contains_re_iff:
  "contains_re s w \<longleftrightarrow> (\<exists>u x v. s = u @ x @ v \<and> list_all2 (chr_eq True) w x)"
  by (simp add: contains_re_def contains_by_iff)

lemma chomp_cases: "s = chomp s \<or> s = chomp s @ [LF]"
  by (cases s rule: rev_cases) (auto simp: chomp_def)

lemma chomp_snoc_LF: "chomp (s @ [LF]) = s"
  by (simp add: chomp_def)

lemma chomp_no_LF: "LF \<notin> set s \<Longrightarrow> chomp s = s"
  by (cases s rule: rev_cases) (auto simp: chomp_def)

lemma list_all2_chr_eq_LF:
  "list_all2 (chr_eq ic) w x \<Longrightarrow> LF \<notin> set (str_of w) \<Longrightarrow> LF \<notin> set x"
proof (induction rule: list_all2_induct)
  case Nil
  then show ?case by simp
next
  case (Cons c w d x)
  then show ?case using chr_eq_LF [of ic c d] by (auto simp: str_of_def)
qed

lemma rule_substring:
  assumes ws: "\<forall>w \<in> set ws. LF \<notin> set (str_of w)"
  shows "(\<exists>w \<in> set ws. \<exists>u x v e. s = u @ x @ v @ e \<and> LF \<notin> set u \<and> LF \<notin> set v \<and>
            list_all2 (chr_eq True) w x \<and> (e = [] \<or> e = [LF])) \<longleftrightarrow>
         LF \<notin> set (chomp s) \<and> (\<exists>w \<in> set ws. contains_re (chomp s) w)"
    (is "?L \<longleftrightarrow> ?R")
proof
  assume ?L
  then obtain w u x v e where w: "w \<in> set ws" and s: "s = u @ x @ v @ e" and
    u: "LF \<notin> set u" and v: "LF \<notin> set v" and x: "list_all2 (chr_eq True) w x" and
    e: "e = [] \<or> e = [LF]"
    by blast
  from w ws have "LF \<notin> set (str_of w)" by blast
  with x have x': "LF \<notin> set x" by (rule list_all2_chr_eq_LF)
  have c: "chomp s = u @ x @ v"
  proof (cases "e = []")
    case True
    with s u v x' have "LF \<notin> set s" by simp
    then have "chomp s = s" by (rule chomp_no_LF)
    with s True show ?thesis by simp
  next
    case False
    with e have "e = [LF]" by simp
    with s have "s = (u @ x @ v) @ [LF]" by simp
    then show ?thesis by (simp only: chomp_snoc_LF)
  qed
  have "contains_re (chomp s) w"
    unfolding contains_re_iff c using x by blast
  with w u v x' c show ?R by auto
next
  assume r: ?R
  then obtain w where w: "w \<in> set ws" and "contains_re (chomp s) w" by blast
  then obtain u x v where c: "chomp s = u @ x @ v" and x: "list_all2 (chr_eq True) w x"
    unfolding contains_re_iff by blast
  from r c have u: "LF \<notin> set u" and v: "LF \<notin> set v" by simp_all
  from chomp_cases [of s] obtain e where e: "e = [] \<or> e = [LF]" and "s = chomp s @ e"
    by auto
  with c have "s = u @ x @ v @ e" by simp
  with w u v x e show ?L by blast
qed

lemma in_ends_Seq:
  "q \<in> set (ends ic (Seq x y) q0) \<longleftrightarrow> (\<exists>q' \<in> set (ends ic x q0). q \<in> set (ends ic y q'))"
  by (simp add: set_ends_Seq)

lemma set_ends_lit_append:
  "set (ends ic (Seq (lit u) (lit v)) q0) = set (ends ic (lit (u @ v)) q0)"
proof (induction u arbitrary: q0)
  case Nil
  then show ?case by (cases q0) (simp add: lit_def)
next
  case (Cons c u)
  have "set (ends ic (Seq (lit (c # u)) (lit v)) q0) =
      (\<Union>q1 \<in> set (ends ic (Chr c) q0). set (ends ic (Seq (lit u) (lit v)) q1))"
    by (simp add: lit_def set_ends_Seq)
  also have "\<dots> = (\<Union>q1 \<in> set (ends ic (Chr c) q0). set (ends ic (lit (u @ v)) q1))"
    by (simp add: Cons.IH)
  also have "\<dots> = set (ends ic (lit ((c # u) @ v)) q0)"
    by (simp add: lit_def set_ends_Seq)
  finally show ?case .
qed

lemma set_ends_lit_optional:
  "set (ends ic (Seq (lit u) (alts [lit a, lit b, Eps])) q0) =
     set (ends ic (alts (map lit [u @ a, u @ b, u])) q0)"
proof -
  have eps: "Eps = lit []" by (simp add: lit_def)
  have "set (ends ic (Seq (lit u) (alts [lit a, lit b, Eps])) q0) =
      set (ends ic (Seq (lit u) (lit a)) q0) \<union> set (ends ic (Seq (lit u) (lit b)) q0) \<union>
      set (ends ic (Seq (lit u) (lit [])) q0)"
    unfolding eps by (auto simp: set_ends_Seq set_ends_Alt)
  also have "\<dots> = set (ends ic (lit (u @ a)) q0) \<union> set (ends ic (lit (u @ b)) q0) \<union>
      set (ends ic (lit (u @ [])) q0)"
    by (simp only: set_ends_lit_append)
  also have "\<dots> = set (ends ic (alts (map lit [u @ a, u @ b, u])) q0)"
    by (auto simp: set_ends_Alt)
  finally show ?thesis .
qed

lemma seqs_join:
  "ends ic (seqs (ys @ x # y # zs)) q0 \<noteq> [] \<longleftrightarrow> ends ic (seqs (ys @ Seq x y # zs)) q0 \<noteq> []"
proof -
  have "set (ends ic (seqs (ys @ x # y # zs)) q0) = set (ends ic (seqs (ys @ Seq x y # zs)) q0)"
  proof (induction ys arbitrary: q0)
    case Nil
    show ?case
      by (rule set_eqI) (auto simp: in_ends_seqs_Cons set_ends_Seq)
  next
    case (Cons a ys)
    show ?case
      by (rule set_eqI) (simp add: in_ends_seqs_Cons Cons.IH)
  qed
  then show ?thesis by (metis set_empty)
qed

lemma token_rule_match:
  assumes "ws \<noteq> []" and "[] \<notin> set ws" and "\<forall>w \<in> set ws. LF \<notin> set (str_of w)"
  shows "Pattern_match (re_compile (seqs [Bol, Star Dot, alts (map lit ws), Star Dot, Eol])
           IGNORECASE) s \<longleftrightarrow>
         LF \<notin> set (chomp s) \<and> list_ex (contains_re (chomp s)) ws"
proof -
  have "ends True (seqs [Bol, Star Dot, alts (map lit ws), Star Dot, Eol]) (True, s) \<noteq> [] \<longleftrightarrow>
      (\<exists>w \<in> set ws. \<exists>u x v e. s = u @ x @ v @ e \<and> LF \<notin> set u \<and> LF \<notin> set v \<and>
         list_all2 (chr_eq True) w x \<and> (e = [] \<or> e = [LF]))"
    by (rule rule_matches) (rule in_ends_tokens [OF assms(1) assms(2)])
  also have "\<dots> \<longleftrightarrow> LF \<notin> set (chomp s) \<and> (\<exists>w \<in> set ws. contains_re (chomp s) w)"
    by (rule rule_substring [OF assms(3)])
  finally show ?thesis
    by (simp add: Pattern_match_def re_compile_def list_ex_iff)
qed

lemma user_rule_match:
  "Pattern_match (re_compile (seqs [Bol, Star Dot, lit ''user'',
        alts [lit ''id'', lit ''name'', Eps], Star Dot, Eol]) IGNORECASE) s \<longleftrightarrow>
   LF \<notin> set (chomp s) \<and> list_ex (contains_re (chomp s)) [''userid'', ''username'', ''user'']"
proof -
  let ?ws = "[''userid'', ''username'', ''user'']"
  let ?A = "Seq (lit ''user'') (alts [lit ''id'', lit ''name'', Eps])"
  have A: "\<And>q q0. q \<in> set (ends True ?A q0) \<longleftrightarrow>
      (\<exists>w \<in> set ?ws. \<exists>x. snd q0 = x @ snd q \<and> list_all2 (chr_eq True) w x \<and> \<not> fst q)"
  proof -
    fix q q0 :: pos
    have "set (ends True ?A q0) = set (ends True (alts (map lit ?ws)) q0)"
      using set_ends_lit_optional [of True "''user''" "''id''" "''name''" q0] by simp
    moreover have ne: "?ws \<noteq> []" and nn: "[] \<notin> set ?ws" by simp_all
    ultimately show "q \<in> set (ends True ?A q0) \<longleftrightarrow>
        (\<exists>w \<in> set ?ws. \<exists>x. snd q0 = x @ snd q \<and> list_all2 (chr_eq True) w x \<and> \<not> fst q)"
      using in_ends_tokens [OF ne nn, of q True q0] by simp
  qed
  have "ends True (seqs ([Bol, Star Dot] @ lit ''user'' # alts [lit ''id'', lit ''name'', Eps]
          # [Star Dot, Eol])) (True, s) \<noteq> [] \<longleftrightarrow>
      ends True (seqs ([Bol, Star Dot] @ ?A # [Star Dot, Eol])) (True, s) \<noteq> []"
    by (rule seqs_join)
  also have "\<dots> \<longleftrightarrow> ends True (seqs [Bol, Star Dot, ?A, Star Dot, Eol]) (True, s) \<noteq> []"
    by simp
  also have "\<dots> \<longleftrightarrow> (\<exists>w \<in> set ?ws. \<exists>u x v e. s = u @ x @ v @ e \<and> LF \<notin> set u \<and>
      LF \<notin> set v \<and> list_all2 (chr_eq True) w x \<and> (e = [] \<or> e = [LF]))"
    by (rule rule_matches) (rule A)
  also have "\<dots> \<longleftrightarrow> LF \<notin> set (chomp s) \<and> (\<exists>w \<in> set ?ws. contains_re (chomp s) w)"
    by (rule rule_substring) (simp add: str_of_def)
  finally show ?thesis
    by (simp add: Pattern_match_def re_compile_def list_ex_iff)
qed

lemma regex_lookup:
  "map_of ColumnNameScanner_regex t =
     (if t = CREDIT_CARD then None
      else if t = USER_NAME
        then Some (re_compile (seqs [Bol, Star Dot, lit ''user'',
               alts [lit ''id'', lit ''name'', Eps], Star Dot, Eol]) IGNORECASE)
      else Some (re_compile (seqs [Bol, Star Dot, alts (map lit (rule_tokens t)), Star Dot, Eol])
             IGNORECASE))"
  by (cases t) (simp_all add: ColumnNameScanner_regex_def)

lemma rule_tokens_ok:
  "t \<noteq> CREDIT_CARD \<Longrightarrow>
     rule_tokens t \<noteq> [] \<and> [] \<notin> set (rule_tokens t) \<and>
     (\<forall>w \<in> set (rule_tokens t). LF \<notin> set (str_of w))"
  by (cases t) (simp_all add: str_of_def)

lemma regex_rule_substring:
  assumes "map_of ColumnNameScanner_regex t = Some p"
  shows "Pattern_match p s \<longleftrightarrow> LF \<notin> set (chomp s) \<and> substring_rule_re t (chomp s)"
proof -
  from assms have t: "t \<noteq> CREDIT_CARD"
    by (auto simp: regex_lookup)
  show ?thesis
  proof (cases "t = USER_NAME")
    case True
    with assms have "p = re_compile (seqs [Bol, Star Dot, lit ''user'',
        alts [lit ''id'', lit ''name'', Eps], Star Dot, Eol]) IGNORECASE"
      by (simp add: regex_lookup)
    then show ?thesis
      using True by (simp only: user_rule_match substring_rule_re_def rule_tokens.simps)
  next
    case False
    with assms t have "p = re_compile (seqs [Bol, Star Dot, alts (map lit (rule_tokens t)),
        Star Dot, Eol]) IGNORECASE"
      by (simp add: regex_lookup)
    moreover from rule_tokens_ok [OF t] have ok: "rule_tokens t \<noteq> []" "[] \<notin> set (rule_tokens t)"
      "\<forall>w \<in> set (rule_tokens t). LF \<notin> set (str_of w)" by blast+
    ultimately show ?thesis
      using token_rule_match [OF ok, of s] by (simp add: substring_rule_re_def)
  qed
qed

lemma case_eq_lower: "case_eq a b \<Longrightarrow> unicode_tolower a = unicode_tolower b"
  by (auto simp: case_eq_def)

lemma case_eq_LF: "case_eq a b \<Longrightarrow> a = LF \<longleftrightarrow> b = LF"
  using case_eq_lower [of a b] unicode_tolower_LF_iff by metis

lemma same_ci_Nil [simp]: "same_ci [] t \<longleftrightarrow> t = []" "same_ci s [] \<longleftrightarrow> s = []"
  by (auto simp: same_ci_def)

lemma same_ci_Cons:
  "same_ci (c # s) t \<longleftrightarrow> (\<exists>d t'. t = d # t' \<and> case_eq c d \<and> same_ci s t')"
  by (auto simp: same_ci_def list_all2_Cons1)

lemma same_ci_length: "same_ci s t \<Longrightarrow> length s = length t"
  unfolding same_ci_def by (rule list_all2_lengthD)

lemma same_ci_LF: "same_ci s t \<Longrightarrow> s = [LF] \<longleftrightarrow> t = [LF]"
proof -
  assume "same_ci s t"
  then show ?thesis
    by (cases s; cases t) (auto simp: same_ci_Cons dest: case_eq_LF)
qed

lemma list_all2_concat_map:
  "list_all2 R xs ys \<Longrightarrow> (\<And>x y. x \<in> set xs \<Longrightarrow> R x y \<Longrightarrow> list_all2 R (f x) (f y)) \<Longrightarrow>
     list_all2 R (concat (map f xs)) (concat (map f ys))"
proof (induction rule: list_all2_induct)
  case Nil
  then show ?case by simp
next
  case (Cons x xs y ys)
  then show ?case by (simp add: list_all2_appendI)
qed

lemma list_all2_filter_rel:
  "list_all2 R xs ys \<Longrightarrow> (\<And>x y. R x y \<Longrightarrow> P x = Q y) \<Longrightarrow>
     list_all2 R (filter P xs) (filter Q ys)"
proof (induction rule: list_all2_induct)
  case Nil
  then show ?case by simp
next
  case (Cons x xs y ys)
  then show ?case by auto
qed

lemma ends_same_ci_aux:
  "ic \<longrightarrow> (\<forall>q2. same_pos_ci q1 q2 \<longrightarrow> list_all2 same_pos_ci (ends ic x q1) (ends ic x q2))"
proof (induction ic x q1 rule: ends.induct)
  case (1 ic c b r)
  show ?case
  proof (intro impI allI)
    fix q2 assume ic: ic and rel: "same_pos_ci (b, r) q2"
    obtain r2 where q2: "q2 = (b, r2)" and r: "same_ci r r2"
      using rel by (cases q2) (auto simp: same_pos_ci_def)
    show "list_all2 same_pos_ci (ends ic (Chr c) (b, r)) (ends ic (Chr c) q2)"
    proof (cases r)
      case Nil
      with r q2 show ?thesis by simp
    next
      case (Cons d r')
      with r obtain d2 r2' where "r2 = d2 # r2'" "unicode_tolower d = unicode_tolower d2"
        "same_ci r' r2'" by (auto simp: same_ci_Cons dest: case_eq_lower)
      with Cons q2 ic show ?thesis
        by (simp add: chr_eq_def same_pos_ci_def)
    qed
  qed
next
  case (2 ic b r)
  show ?case
  proof (intro impI allI)
    fix q2 assume ic: ic and rel: "same_pos_ci (b, r) q2"
    obtain r2 where q2: "q2 = (b, r2)" and r: "same_ci r r2"
      using rel by (cases q2) (auto simp: same_pos_ci_def)
    show "list_all2 same_pos_ci (ends ic Dot (b, r)) (ends ic Dot q2)"
    proof (cases r)
      case Nil
      with r q2 show ?thesis by simp
    next
      case (Cons d r')
      with r obtain d2 r2' where d2: "r2 = d2 # r2'" "unicode_tolower d = unicode_tolower d2"
        "same_ci r' r2'" by (auto simp: same_ci_Cons dest: case_eq_lower)
      then have "d = LF \<longleftrightarrow> d2 = LF"
        using unicode_tolower_LF_iff by metis
      with Cons q2 d2 show ?thesis
        by (simp add: same_pos_ci_def)
    qed
  qed
next
  case (3 ic b r)
  show ?case by (auto simp: same_pos_ci_def)
next
  case (4 ic b r)
  show ?case
  proof (intro impI allI)
    fix q2 assume rel: "same_pos_ci (b, r) q2"
    obtain r2 where q2: "q2 = (b, r2)" and r: "same_ci r r2"
      using rel by (cases q2) (auto simp: same_pos_ci_def)
    from r have "r = [] \<longleftrightarrow> r2 = []" by auto
    moreover from r have "r = [LF] \<longleftrightarrow> r2 = [LF]" by (rule same_ci_LF)
    ultimately show "list_all2 same_pos_ci (ends ic Eol (b, r)) (ends ic Eol q2)"
      using q2 r by (simp add: same_pos_ci_def)
  qed
next
  case (5 ic b r)
  show ?case by (auto simp: same_pos_ci_def)
next
  case (6 ic x y b r)
  show ?case
  proof (intro impI allI)
    fix q2 assume ic: ic and rel: "same_pos_ci (b, r) q2"
    from "6.IH"(1) ic rel
    have 1: "list_all2 same_pos_ci (ends ic x (b, r)) (ends ic x q2)" by blast
    have "list_all2 same_pos_ci (concat (map (ends ic y) (ends ic x (b, r))))
        (concat (map (ends ic y) (ends ic x q2)))"
      using 1
    proof (rule list_all2_concat_map)
      fix q q' assume "q \<in> set (ends ic x (b, r))" and "same_pos_ci q q'"
      with "6.IH"(2) ic show "list_all2 same_pos_ci (ends ic y q) (ends ic y q')" by blast
    qed
    then show "list_all2 same_pos_ci (ends ic (Seq x y) (b, r)) (ends ic (Seq x y) q2)"
      by (cases q2) simp
  qed
next
  case (7 ic x y b r)
  show ?case
  proof (intro impI allI)
    fix q2 assume ic: ic and rel: "same_pos_ci (b, r) q2"
    from "7.IH" ic rel
    have "list_all2 same_pos_ci (ends ic x (b, r)) (ends ic x q2)"
      and "list_all2 same_pos_ci (ends ic y (b, r)) (ends ic y q2)" by blast+
    then show "list_all2 same_pos_ci (ends ic (Alt x y) (b, r)) (ends ic (Alt x y) q2)"
      by (cases q2) (simp add: list_all2_appendI)
  qed
next
  case (8 ic x b r)
  show ?case
  proof (intro impI allI)
    fix q2 assume ic: ic and rel: "same_pos_ci (b, r) q2"
    obtain r2 where q2: "q2 = (b, r2)" and r: "same_ci r r2"
      using rel by (cases q2) (auto simp: same_pos_ci_def)
    from r have len: "length r = length r2" by (rule same_ci_length)
    from "8.IH"(1) ic rel q2
    have 1: "list_all2 same_pos_ci (ends ic x (b, r)) (ends ic x (b, r2))" by blast
    have 2: "list_all2 same_pos_ci
        (filter (\<lambda>q. length (snd q) < length r) (ends ic x (b, r)))
        (filter (\<lambda>q. length (snd q) < length r2) (ends ic x (b, r2)))"
      using 1
    proof (rule list_all2_filter_rel)
      fix q q' assume "same_pos_ci q q'"
      then have "length (snd q) = length (snd q')"
        by (simp add: same_pos_ci_def same_ci_length)
      with len show "(length (snd q) < length r) = (length (snd q') < length r2)" by simp
    qed
    have 3: "list_all2 same_pos_ci
        (concat (map (ends ic (Star x))
           (filter (\<lambda>q. length (snd q) < length r) (ends ic x (b, r)))))
        (concat (map (ends ic (Star x))
           (filter (\<lambda>q. length (snd q) < length r2) (ends ic x (b, r2)))))"
      using 2
    proof (rule list_all2_concat_map)
      fix q q'
      assume "q \<in> set (filter (\<lambda>q. length (snd q) < length r) (ends ic x (b, r)))"
        and "same_pos_ci q q'"
      with "8.IH"(2) ic
      show "list_all2 same_pos_ci (ends ic (Star x) q) (ends ic (Star x) q')" by blast
    qed
    show "list_all2 same_pos_ci (ends ic (Star x) (b, r)) (ends ic (Star x) q2)"
      unfolding q2
      apply (subst ends.simps(8))
      apply (subst ends.simps(8))
      using 3 rel q2 apply simp
      done
  qed
qed

lemma Pattern_match_same_ci:
  assumes "same_ci s t"
  shows "Pattern_match (re_compile x IGNORECASE) s = Pattern_match (re_compile x IGNORECASE) t"
proof -
  from assms have "same_pos_ci (True, s) (True, t)" by (simp add: same_pos_ci_def)
  with ends_same_ci_aux [where ic = True and x = x and ?q1.0 = "(True, s)"]
  have "list_all2 same_pos_ci (ends True x (True, s)) (ends True x (True, t))" by blast
  then have "ends True x (True, s) = [] \<longleftrightarrow> ends True x (True, t) = []"
    by (auto dest: list_all2_lengthD)
  then show ?thesis
    by (simp add: Pattern_match_def re_compile_def)
qed

lemma fullmatch_match: "Pattern_fullmatch p s \<Longrightarrow> Pattern_match p s"
  by (auto simp: Pattern_fullmatch_def Pattern_match_def list_ex_iff)

subsection \<open>Calls of \<open>scan\<close>\<close>

lemma ColumnNameScanner_init_Inr:
  "\<exists>ex. ColumnNameScanner_init exclude = Inr \<lparr>exclude_regex = ex, regex = ColumnNameScanner_regex\<rparr>"
  by (cases exclude) (simp_all add: ColumnNameScanner_init_def)

lemma regex_no_match_empty:
  "list_all (\<lambda>(t, p). \<not> Pattern_match p []) ColumnNameScanner_regex"
  by (simp add: eval_defs)

lemma ColumnNameScanner_scan_empty_text:
  "ColumnNameScanner_new_scan exclude [] = Inr {}"
proof -
  obtain ex where init: "ColumnNameScanner_init exclude =
      Inr \<lparr>exclude_regex = ex, regex = ColumnNameScanner_regex\<rparr>"
    using ColumnNameScanner_init_Inr by blast
  have "\<And>t p. map_of ColumnNameScanner_regex t = Some p \<Longrightarrow> \<not> Pattern_match p []"
  proof -
    fix t p assume "map_of ColumnNameScanner_regex t = Some p"
    then have "(t, p) \<in> set ColumnNameScanner_regex" by (rule map_of_SomeD)
    with regex_no_match_empty show "\<not> Pattern_match p []"
      by (auto simp: list_all_iff)
  qed
  then have "{t. \<exists>p. map_of ColumnNameScanner_regex t = Some p \<and> Pattern_match p []} = {}"
    by blast
  with init show ?thesis
    by (simp add: ColumnNameScanner_new_scan_def ColumnNameScanner_scan_eq split: option.splits)
qed

lemma RegexScanner_scan_Inl:
  "RegexScanner_scan CommonRegex_new s = Inl e \<longleftrightarrow> CommonRegex_new s = Inl e"
  by (simp add: RegexScanner_scan_def Let_def split: sum.splits)

lemma NERScanner_scan_Inl:
  "NERScanner_scan ner s = Inl e \<longleftrightarrow> nlp ner s = Inl e"
  by (simp add: NERScanner_scan_def split: sum.splits)

text \<open>
  C4, as the code has it. \<open>ColumnNameScanner.scan\<close> returns a set of PiiTypes for every
  text, whatever the scanner holds: no call ends in an error, the look-up
  \<open>self.regex[pii_type]\<close> included; a text no pattern of the table matches gives the
  empty set, and so does the empty text on every scanner the constructor builds.
  \<open>RegexScanner.scan\<close> and \<open>NERScanner.scan\<close> catch nothing and raise nothing of their
  own: a call ends in an error exactly when the library call it makes on the text
  (\<open>CommonRegex(text)\<close>, the spaCy pipeline) raises, and then in that error; when the
  library call returns, the scan returns a collection of PiiTypes. It is empty for a
  document without entities, and for a text that is not empty in which CommonRegex
  finds no match of the four categories.
\<close>

theorem scan_total_unless_library_raises:
  "(\<exists>types. ColumnNameScanner_scan self text = Inr types)
   \<and> ColumnNameScanner_new_scan exclude [] = Inr {}
   \<and> ((\<forall>t p. map_of (regex self) t = Some p \<longrightarrow> \<not> Pattern_match p text)
        \<longrightarrow> ColumnNameScanner_scan self text = Inr {})
   \<and> (RegexScanner_scan CommonRegex_new text = Inl e \<longleftrightarrow> CommonRegex_new text = Inl e)
   \<and> (NERScanner_scan ner text = Inl e \<longleftrightarrow> nlp ner text = Inl e)
   \<and> ((\<exists>types. RegexScanner_scan CommonRegex_new text = Inr types)
        \<longleftrightarrow> (\<exists>regex_result. CommonRegex_new text = Inr regex_result))
   \<and> ((\<exists>types. NERScanner_scan ner text = Inr types) \<longleftrightarrow> (\<exists>doc. nlp ner text = Inr doc))
   \<and> (nlp ner text = Inr doc \<and> ents doc = [] \<longrightarrow> NERScanner_scan ner text = Inr {})
   \<and> (text \<noteq> [] \<and> findall PHONE text = [] \<and> findall EMAIL text = []
        \<and> findall CREDIT_CARD text = [] \<and> findall ADDRESS text = []
        \<longrightarrow> RegexScanner_scan (CommonRegex_init findall) text = Inr [])"
proof -
  have 1: "\<exists>types. ColumnNameScanner_scan self text = Inr types"
    by (simp add: ColumnNameScanner_scan_eq)
  have 2: "ColumnNameScanner_new_scan exclude [] = Inr {}"
    by (rule ColumnNameScanner_scan_empty_text)
  have 3: "(\<forall>t p. map_of (regex self) t = Some p \<longrightarrow> \<not> Pattern_match p text)
        \<longrightarrow> ColumnNameScanner_scan self text = Inr {}"
    by (simp add: ColumnNameScanner_scan_eq split: option.splits)
  have 4: "RegexScanner_scan CommonRegex_new text = Inl e \<longleftrightarrow> CommonRegex_new text = Inl e"
    by (rule RegexScanner_scan_Inl)
  have 5: "NERScanner_scan ner text = Inl e \<longleftrightarrow> nlp ner text = Inl e"
    by (rule NERScanner_scan_Inl)
  have 6: "(\<exists>types. RegexScanner_scan CommonRegex_new text = Inr types)
        \<longleftrightarrow> (\<exists>regex_result. CommonRegex_new text = Inr regex_result)"
    by (cases "CommonRegex_new text") (simp_all add: RegexScanner_scan_def Let_def)
  have 7: "(\<exists>types. NERScanner_scan ner text = Inr types) \<longleftrightarrow> (\<exists>doc. nlp ner text = Inr doc)"
    by (cases "nlp ner text") (simp_all add: NERScanner_scan_def)
  have 8: "nlp ner text = Inr doc \<and> ents doc = [] \<longrightarrow> NERScanner_scan ner text = Inr {}"
    by (simp add: NERScanner_scan_def)
  have 9: "text \<noteq> [] \<and> findall PHONE text = [] \<and> findall EMAIL text = []
        \<and> findall CREDIT_CARD text = [] \<and> findall ADDRESS text = []
        \<longrightarrow> RegexScanner_scan (CommonRegex_init findall) text = Inr []"
    by (simp add: RegexScanner_scan_nonempty_text)
  from 1 2 3 4 5 6 7 8 9 show ?thesis by blast
qed

theorem scan_total_unless_library_raises_witness:
  "ColumnNameScanner_scan \<lparr>exclude_regex = None, regex = ColumnNameScanner_regex\<rparr>
     (str_of ''hello world'') = Inr {}
   \<and> NERScanner_scan \<lparr>nlp = spacy_pipeline blank\<rparr> (str_of ''hello world'') = Inr {}
   \<and> RegexScanner_scan (CommonRegex_init (\<lambda>t s. [])) (str_of ''hello world'') = Inr []"
proof -
  let ?self = "\<lparr>exclude_regex = None, regex = ColumnNameScanner_regex\<rparr>"
  let ?ner = "\<lparr>nlp = spacy_pipeline blank\<rparr>"
  let ?s = "str_of ''hello world''"
  let ?findall = "\<lambda>(t::PiiTypes) (s::str). [] :: str list"
  have m: "list_all (\<lambda>(t, p). \<not> Pattern_match p ?s) ColumnNameScanner_regex"
    by (simp add: eval_defs)
  have h3: "\<forall>t p. map_of (regex ?self) t = Some p \<longrightarrow> \<not> Pattern_match p ?s"
  proof (intro allI impI)
    fix t p assume "map_of (regex ?self) t = Some p"
    then have "(t, p) \<in> set ColumnNameScanner_regex" by (simp add: map_of_SomeD)
    with m show "\<not> Pattern_match p ?s" by (auto simp: list_all_iff)
  qed
  have h8: "nlp ?ner ?s = Inr \<lparr>ents = []\<rparr> \<and> ents \<lparr>ents = []\<rparr> = []"
    by (simp add: spacy_pipeline_def blank_def str_of_def)
  have h9: "?s \<noteq> [] \<and> ?findall PHONE ?s = [] \<and> ?findall EMAIL ?s = []
      \<and> ?findall CREDIT_CARD ?s = [] \<and> ?findall ADDRESS ?s = []"
    by (simp add: str_of_def)
  show ?thesis
    using scan_total_unless_library_raises
      [of ?self ?s _ _ _ ?ner "\<lparr>ents = []\<rparr>" ?findall] h3 h8 h9
    by blast
qed

text \<open>
  C4, as the claim states it (no scan raises, whatever the text), fails: the scanners
  catch nothing, and a spaCy pipeline raises \<open>ValueError\<close> on a text longer than its
  \<open>max_length\<close>. The scan of a text of 1000001 characters \<open>a\<close> ends in that error.
\<close>

theorem NERScanner_scan_raises_counterexample:
  "NERScanner_scan \<lparr>nlp = spacy_pipeline blank\<rparr> (replicate 1000001 97) = Inl ValueError"
  by (simp add: NERScanner_scan_def spacy_pipeline_def)

text \<open>
  C6. \<open>ColumnNameScanner.scan\<close> is idempotent: a second call on the same text, made on
  the scanner and the log as the first call left them, returns the set the first call
  returned. And the set does not depend on the order in which the rule table enumerates
  its pairs: two dictionaries with the same items, each key once, give the same result.
\<close>

theorem ColumnNameScanner_scan_idempotent_order_independent:
  assumes "distinct (map fst d)" and "distinct (map fst d')" and "set d = set d'"
  shows "ColumnNameScanner_scan (self\<lparr>regex := d\<rparr>) text =
           ColumnNameScanner_scan (self\<lparr>regex := d'\<rparr>) text
         \<and> (case Scanner_scan CommonRegex_new (A_ColumnNameScanner self) text lg of
              (r, sc', lg') \<Rightarrow> fst (Scanner_scan CommonRegex_new sc' text lg') = r)"
proof -
  from assms have eq: "map_of d = map_of d'"
    by (simp add: map_of_inject_set)
  have "ColumnNameScanner_scan (self\<lparr>regex := d\<rparr>) text =
      ColumnNameScanner_scan (self\<lparr>regex := d'\<rparr>) text"
    by (simp add: ColumnNameScanner_scan_eq eq split: option.splits)
  moreover have "case Scanner_scan CommonRegex_new (A_ColumnNameScanner self) text lg of
      (r, sc', lg') \<Rightarrow> fst (Scanner_scan CommonRegex_new sc' text lg') = r"
    by (simp add: ColumnNameScanner_scan_eq)
  ultimately show ?thesis by simp
qed

theorem ColumnNameScanner_scan_idempotent_order_independent_witness:
  "ColumnNameScanner_scan \<lparr>exclude_regex = None, regex = ColumnNameScanner_regex\<rparr>
       (str_of ''user_email'') =
     ColumnNameScanner_scan \<lparr>exclude_regex = None, regex = rev ColumnNameScanner_regex\<rparr>
       (str_of ''user_email'')"
proof -
  have h1: "distinct (map fst ColumnNameScanner_regex)"
    by (simp add: ColumnNameScanner_regex_def)
  then have h2: "distinct (map fst (rev ColumnNameScanner_regex))"
    by (simp add: rev_map [symmetric])
  have h3: "set ColumnNameScanner_regex = set (rev ColumnNameScanner_regex)" by simp
  show ?thesis
    using ColumnNameScanner_scan_idempotent_order_independent
      [OF h1 h2 h3, of "\<lparr>exclude_regex = None, regex = []\<rparr>" "str_of ''user_email''"]
    by simp
qed

subsection \<open>The rules as substring tests\<close>

lemma new_scan_no_exclusion:
  "ColumnNameScanner_new_scan [] s =
     Inr {t. \<exists>p. map_of ColumnNameScanner_regex t = Some p \<and> Pattern_match p s}"
  by (simp add: ColumnNameScanner_new_scan_def ColumnNameScanner_init_def
      ColumnNameScanner_scan_eq)

lemma new_scan_exclusion:
  "ColumnNameScanner_new_scan [x] s =
     (if Pattern_match (re_compile x IGNORECASE) s then Inr {}
      else ColumnNameScanner_new_scan [] s)"
  by (simp add: ColumnNameScanner_new_scan_def ColumnNameScanner_init_def
      ColumnNameScanner_scan_eq)

lemma str_lower_map:
  "0x130 \<notin> set s \<Longrightarrow> str_lower s = map unicode_tolower s"
  by (induction s) (simp_all add: str_lower_def)

lemma starts_by_map:
  "starts_by eq (map f s) w = starts_by (\<lambda>c d. eq c (f d)) s w"
  by (induction "\<lambda>c d. eq c (f d)" s w rule: starts_by.induct) simp_all

lemma contains_by_map:
  "contains_by eq (map f s) w = contains_by (\<lambda>c d. eq c (f d)) s w"
proof (induction s)
  case Nil
  then show ?case by simp
next
  case (Cons d s)
  have "starts_by eq (f d # map f s) w = starts_by (\<lambda>c d. eq c (f d)) (d # s) w"
    using starts_by_map [of eq f "d # s" w] by simp
  with Cons show ?case by simp
qed

lemma starts_by_cong:
  "(\<And>c d. c \<in> set w \<Longrightarrow> d \<in> set s \<Longrightarrow> eq1 c d = eq2 c d) \<Longrightarrow>
     starts_by eq1 s w = starts_by eq2 s w"
proof (induction eq1 s w rule: starts_by.induct)
  case (1 eq s)
  then show ?case by simp
next
  case (2 eq c w)
  then show ?case by simp
next
  case (3 eq d s c w)
  then show ?case by simp
qed

lemma contains_by_cong:
  "(\<And>c d. c \<in> set w \<Longrightarrow> d \<in> set s \<Longrightarrow> eq1 c d = eq2 c d) \<Longrightarrow>
     contains_by eq1 s w = contains_by eq2 s w"
proof (induction s)
  case Nil
  then show ?case by simp
next
  case (Cons d s)
  have "starts_by eq1 (d # s) w = starts_by eq2 (d # s) w"
    by (rule starts_by_cong) (rule Cons.prems)
  moreover have "contains_by eq1 s w = contains_by eq2 s w"
    by (rule Cons.IH) (simp add: Cons.prems)
  ultimately show ?case by simp
qed

lemma unicode_tolower_ascii: "n < 128 \<Longrightarrow> unicode_tolower n < 128"
  by (simp add: unicode_tolower_def)

lemma unicode_tolower_dotless_i: "unicode_tolower d = 0x131 \<longleftrightarrow> d = 0x131"
  by (auto simp: unicode_tolower_def split: if_splits)

lemma unicode_tolower_long_s: "unicode_tolower d = 0x17F \<longleftrightarrow> d = 0x17F"
  by (auto simp: unicode_tolower_def split: if_splits)

lemma chr_eq_lower:
  assumes c: "of_char c < (128::nat)" and d: "d \<noteq> 0x131" "d \<noteq> 0x17F"
  shows "chr_eq True c d \<longleftrightarrow> unicode_tolower d = unicode_tolower (of_char c)"
proof -
  define lo where "lo = unicode_tolower (of_char c)"
  have "lo < 128" unfolding lo_def using c by (rule unicode_tolower_ascii)
  then have ex: "set (extra_cases lo) \<subseteq> {0x131, 0x17F}"
    by (simp add: extra_cases_def)
  have "unicode_tolower d \<notin> {0x131, 0x17F}"
    using d by (simp add: unicode_tolower_dotless_i unicode_tolower_long_s)
  with ex have "unicode_tolower d \<notin> set (extra_cases lo)" by blast
  then show ?thesis
    by (simp add: chr_eq_def Let_def lo_def [symmetric])
qed

lemma rule_tokens_ascii:
  "w \<in> set (rule_tokens t) \<Longrightarrow> c \<in> set w \<Longrightarrow> of_char c < (128::nat)"
  by (cases t) auto

lemma contains_re_ci:
  assumes w: "\<And>c. c \<in> set w \<Longrightarrow> of_char c < (128::nat)"
    and s: "0x130 \<notin> set s" "0x131 \<notin> set s" "0x17F \<notin> set s"
  shows "contains_re s w = contains_ci s w"
proof -
  have "contains_ci s w =
      contains_by (\<lambda>c d. unicode_tolower d = unicode_tolower (of_char c)) s w"
    using s(1) by (simp add: contains_ci_def str_lower_map contains_by_map)
  also have "\<dots> = contains_by (chr_eq True) s w"
  proof (rule contains_by_cong)
    fix c d assume "c \<in> set w" and "d \<in> set s"
    with w s have "of_char c < (128::nat)" "d \<noteq> 0x131" "d \<noteq> 0x17F" by auto
    then show "(unicode_tolower d = unicode_tolower (of_char c)) = chr_eq True c d"
      by (simp add: chr_eq_lower)
  qed
  finally show ?thesis by (simp add: contains_re_def)
qed

lemma substring_rule_re_ci:
  assumes "0x130 \<notin> set s" "0x131 \<notin> set s" "0x17F \<notin> set s"
  shows "substring_rule_re t s = substring_rule t s"
proof -
  have "\<And>w. w \<in> set (rule_tokens t) \<Longrightarrow> contains_re s w = contains_ci s w"
    using assms by (intro contains_re_ci) (auto dest: rule_tokens_ascii)
  then show ?thesis
    by (simp add: substring_rule_re_def substring_rule_def list_ex_iff)
qed

lemma scan_substring_re:
  "ColumnNameScanner_new_scan [] s =
     Inr {t. LF \<notin> set (chomp s) \<and> substring_rule_re t (chomp s)}"
proof -
  have "{t'. \<exists>p'. map_of ColumnNameScanner_regex t' = Some p' \<and> Pattern_match p' s} =
      {t'. LF \<notin> set (chomp s) \<and> substring_rule_re t' (chomp s)}"
  proof (rule Collect_cong)
    fix t'
    show "(\<exists>p'. map_of ColumnNameScanner_regex t' = Some p' \<and> Pattern_match p' s) \<longleftrightarrow>
        LF \<notin> set (chomp s) \<and> substring_rule_re t' (chomp s)"
    proof (cases "t' = CREDIT_CARD")
      case True
      then show ?thesis by (simp add: regex_lookup substring_rule_re_def)
    next
      case False
      then obtain p' where p': "map_of ColumnNameScanner_regex t' = Some p'"
        by (cases "t' = USER_NAME") (simp_all add: regex_lookup)
      with regex_rule_substring [OF p', of s] show ?thesis by simp
    qed
  qed
  then show ?thesis by (simp add: new_scan_no_exclusion)
qed

text \<open>
  C9, as the code has it. The rule of a category matches a text exactly when the text,
  one line feed at its very end left aside, holds no line feed and holds one of the
  tokens of the category somewhere, the characters compared as \<open>re.IGNORECASE\<close> compares
  them: equal after lower-casing, where U+0130 and U+0131 also count as \<open>i\<close>, U+017F as
  \<open>s\<close> and U+212A as \<open>k\<close>. So on a text with no line feed and none of U+0130, U+0131 and
  U+017F the anchored pattern \<open>^.*(token1|token2|...).*$\<close> is the case-insensitive
  substring test, a token being part of the lower-cased text; the result of a scan
  without exclusion pattern is the set of the categories that pass the test.
\<close>

theorem ColumnNameScanner_rule_substring:
  assumes "map_of ColumnNameScanner_regex t = Some p"
  shows "(Pattern_match p s \<longleftrightarrow> LF \<notin> set (chomp s) \<and> substring_rule_re t (chomp s))
       \<and> (LF \<notin> set s \<and> 0x130 \<notin> set s \<and> 0x131 \<notin> set s \<and> 0x17F \<notin> set s
            \<longrightarrow> (Pattern_match p s \<longleftrightarrow> substring_rule t s))
       \<and> ColumnNameScanner_new_scan [] s =
           Inr {t'. LF \<notin> set (chomp s) \<and> substring_rule_re t' (chomp s)}
       \<and> (LF \<notin> set s \<and> 0x130 \<notin> set s \<and> 0x131 \<notin> set s \<and> 0x17F \<notin> set s
            \<longrightarrow> ColumnNameScanner_new_scan [] s = Inr {t'. substring_rule t' s})"
proof -
  have 1: "Pattern_match p s \<longleftrightarrow> LF \<notin> set (chomp s) \<and> substring_rule_re t (chomp s)"
    using assms by (rule regex_rule_substring)
  have 2: "LF \<notin> set s \<and> 0x130 \<notin> set s \<and> 0x131 \<notin> set s \<and> 0x17F \<notin> set s
      \<longrightarrow> (Pattern_match p s \<longleftrightarrow> substring_rule t s)"
    using 1 by (simp add: chomp_no_LF substring_rule_re_ci)
  have 3: "ColumnNameScanner_new_scan [] s =
      Inr {t'. LF \<notin> set (chomp s) \<and> substring_rule_re t' (chomp s)}"
    by (rule scan_substring_re)
  have 4: "LF \<notin> set s \<and> 0x130 \<notin> set s \<and> 0x131 \<notin> set s \<and> 0x17F \<notin> set s
      \<longrightarrow> ColumnNameScanner_new_scan [] s = Inr {t'. substring_rule t' s}"
    using 3 by (simp add: chomp_no_LF substring_rule_re_ci)
  from 1 2 3 4 show ?thesis by blast
qed

theorem ColumnNameScanner_rule_substring_witness:
  "Pattern_match
     (re_compile (seqs [Bol, Star Dot, alts (map lit [''location'', ''lat'', ''lon'']),
                        Star Dot, Eol]) IGNORECASE) (str_of ''Latitude'')
   \<and> ColumnNameScanner_new_scan [] (str_of ''Latitude'') = Inr {t. substring_rule t (str_of ''Latitude'')}"
proof -
  have h: "map_of ColumnNameScanner_regex LOCATION =
      Some (re_compile (seqs [Bol, Star Dot, alts (map lit [''location'', ''lat'', ''lon'']),
                              Star Dot, Eol]) IGNORECASE)"
    by (simp add: ColumnNameScanner_regex_def)
  have n: "LF \<notin> set (str_of ''Latitude'') \<and> 0x130 \<notin> set (str_of ''Latitude'')
      \<and> 0x131 \<notin> set (str_of ''Latitude'') \<and> 0x17F \<notin> set (str_of ''Latitude'')"
    by (simp add: str_of_def)
  have c: "substring_rule LOCATION (str_of ''Latitude'')" by (simp add: eval_defs)
  show ?thesis
    using ColumnNameScanner_rule_substring [OF h, of "str_of ''Latitude''"] n c by blast
qed

text \<open>
  C9, as the claim states it (the substring test for every input), fails on a text with
  a line feed inside: \<open>.\<close> does not match a line feed, so the text of \<open>a\<close>, a line
  feed and \<open>name\<close> holds the token \<open>name\<close> and is not tagged PERSON. It fails the other
  way on a text with U+0131, U+0130 or U+017F: \<open>ma\<close>, U+0131, \<open>l\<close> and \<open>ma\<close>, U+0130,
  \<open>l\<close> do not hold \<open>mail\<close> once lower-cased and are tagged EMAIL, and \<open>pa\<close>, U+017F, \<open>s\<close>
  does not hold \<open>pass\<close> and is tagged PASSWORD.
\<close>

theorem ColumnNameScanner_rule_substring_counterexample:
  "substring_rule PERSON (str_of ''a'' @ [LF] @ str_of ''name'')
   \<and> ColumnNameScanner_new_scan [] (str_of ''a'' @ [LF] @ str_of ''name'') = Inr {}
   \<and> \<not> substring_rule EMAIL (str_of ''ma'' @ [0x131] @ str_of ''l'')
   \<and> ColumnNameScanner_new_scan [] (str_of ''ma'' @ [0x131] @ str_of ''l'') = Inr {EMAIL}
   \<and> \<not> substring_rule EMAIL (str_of ''ma'' @ [0x130] @ str_of ''l'')
   \<and> ColumnNameScanner_new_scan [] (str_of ''ma'' @ [0x130] @ str_of ''l'') = Inr {EMAIL}
   \<and> \<not> substring_rule PASSWORD (str_of ''pa'' @ [0x17F] @ str_of ''s'')
   \<and> ColumnNameScanner_new_scan [] (str_of ''pa'' @ [0x17F] @ str_of ''s'') = Inr {PASSWORD}"
proof -
  have 1: "substring_rule PERSON (str_of ''a'' @ [LF] @ str_of ''name'')"
    by (simp add: eval_defs)
  have 2: "ColumnNameScanner_new_scan [] (str_of ''a'' @ [LF] @ str_of ''name'') = Inr {}"
    by (simp add: eval_defs)
  have 3: "\<not> substring_rule EMAIL (str_of ''ma'' @ [0x131] @ str_of ''l'')"
    by (simp add: eval_defs)
  have 4: "ColumnNameScanner_new_scan [] (str_of ''ma'' @ [0x131] @ str_of ''l'') = Inr {EMAIL}"
    by (simp add: eval_defs)
  have 5: "\<not> substring_rule EMAIL (str_of ''ma'' @ [0x130] @ str_of ''l'')"
    by (simp add: eval_defs)
  have 6: "ColumnNameScanner_new_scan [] (str_of ''ma'' @ [0x130] @ str_of ''l'') = Inr {EMAIL}"
    by (simp add: eval_defs)
  have 7: "\<not> substring_rule PASSWORD (str_of ''pa'' @ [0x17F] @ str_of ''s'')"
    by (simp add: eval_defs)
  have 8: "ColumnNameScanner_new_scan [] (str_of ''pa'' @ [0x17F] @ str_of ''s'') = Inr {PASSWORD}"
    by (simp add: eval_defs)
  from 1 2 3 4 5 6 7 8 show ?thesis by blast
qed

subsection \<open>The exclusion pattern\<close>

text \<open>
  C5, as the code has it, for an exclusion pattern written with literal characters below
  U+0100, \<open>.\<close>, \<open>^\<close>, \<open>$\<close>, concatenation, \<open>|\<close> and \<open>*\<close>. The constructor compiles the
  pattern with \<open>re.IGNORECASE\<close>, and the scan applies it with \<open>match\<close>, which anchors
  it at the start of the text and nowhere else: when the pattern matches from the start
  of the text, whatever follows the match, the scan is empty, and when it does not, the
  scan is the scan without exclusion. Hence the scan is empty if and only if the pattern
  matches from the start of the text or no rule matches the text. A match of the whole
  text is a match from the start, so it vetoes. The verdict of the pattern is the same on
  two texts that differ only in the case of letters below U+0100.
\<close>

theorem ColumnNameScanner_exclusion_start_anchored:
  "ColumnNameScanner_init [x] =
     Inr \<lparr>exclude_regex = Some (re_compile x IGNORECASE), regex = ColumnNameScanner_regex\<rparr>
   \<and> ColumnNameScanner_new_scan [x] s =
       (if Pattern_match (re_compile x IGNORECASE) s then Inr {}
        else ColumnNameScanner_new_scan [] s)
   \<and> (ColumnNameScanner_new_scan [x] s = Inr {} \<longleftrightarrow>
        Pattern_match (re_compile x IGNORECASE) s \<or> ColumnNameScanner_new_scan [] s = Inr {})
   \<and> (Pattern_fullmatch (re_compile x IGNORECASE) s \<longrightarrow> ColumnNameScanner_new_scan [x] s = Inr {})
   \<and> (same_ci s s' \<longrightarrow>
        Pattern_match (re_compile x IGNORECASE) s' = Pattern_match (re_compile x IGNORECASE) s)"
proof -
  have 0: "ColumnNameScanner_init [x] =
      Inr \<lparr>exclude_regex = Some (re_compile x IGNORECASE), regex = ColumnNameScanner_regex\<rparr>"
    by (simp add: ColumnNameScanner_init_def)
  have 1: "ColumnNameScanner_new_scan [x] s =
     (if Pattern_match (re_compile x IGNORECASE) s then Inr {}
      else ColumnNameScanner_new_scan [] s)"
    by (rule new_scan_exclusion)
  have 2: "ColumnNameScanner_new_scan [x] s = Inr {} \<longleftrightarrow>
      Pattern_match (re_compile x IGNORECASE) s \<or> ColumnNameScanner_new_scan [] s = Inr {}"
    using 1 by simp
  have 3: "Pattern_fullmatch (re_compile x IGNORECASE) s \<longrightarrow>
      ColumnNameScanner_new_scan [x] s = Inr {}"
    using 1 fullmatch_match [of "re_compile x IGNORECASE" s] by simp
  have 4: "same_ci s s' \<longrightarrow>
      Pattern_match (re_compile x IGNORECASE) s' = Pattern_match (re_compile x IGNORECASE) s"
    using Pattern_match_same_ci [of s s' x] by simp
  from 0 1 2 3 4 show ?thesis by blast
qed

theorem ColumnNameScanner_exclusion_start_anchored_witness:
  "ColumnNameScanner_new_scan [lit ''USER_ID''] (str_of ''user_id'') = Inr {}
   \<and> Pattern_match (re_compile (lit ''USER_ID'') IGNORECASE) (str_of ''User_Id'')"
proof -
  have f: "Pattern_fullmatch (re_compile (lit ''USER_ID'') IGNORECASE) (str_of ''user_id'')"
    by (simp add: eval_defs)
  have c: "same_ci (str_of ''user_id'') (str_of ''User_Id'')" by (simp add: eval_defs)
  have m: "Pattern_match (re_compile (lit ''USER_ID'') IGNORECASE) (str_of ''user_id'')"
    using f by (rule fullmatch_match)
  show ?thesis
    using ColumnNameScanner_exclusion_start_anchored
      [of "lit ''USER_ID''" "str_of ''user_id''" "str_of ''User_Id''"] f c m
    by simp
qed

text \<open>
  C5, as the claim states it (a veto only when the whole input matches the exclusion
  pattern), fails: the pattern \<open>user\<close> does not match the whole of \<open>user_email\<close>, it
  matches its first four characters, and the scan is empty all the same.
\<close>

theorem ColumnNameScanner_exclusion_counterexample:
  "\<not> Pattern_fullmatch (re_compile (lit ''user'') IGNORECASE) (str_of ''user_email'')
   \<and> ColumnNameScanner_new_scan [lit ''user''] (str_of ''user_email'') = Inr {}
   \<and> ColumnNameScanner_new_scan [] (str_of ''user_email'') = Inr {USER_NAME, EMAIL}"
  by (simp add: eval_defs)

end
